theory Spec2Isabelle
  imports Main "HOL-Library.Char_ord" "HOL-Library.List_Lexorder" "HOL-Library.Product_Lexorder"
    "HOL-Library.Multiset"
begin

chapter \<open>memexfs: the Node.js loader, the worker and the worker pool\<close>

text \<open>
  The development embeds the JavaScript layer of memexfs: the recursive collector of
  markdown files (\<^verbatim>\<open>js/collect.mjs\<close>), the two loaders (the top-level one of
  \<^verbatim>\<open>js/loader.mjs\<close> and the recursive one), the worker script and the worker pool.
  The search core itself is compiled from Rust to WebAssembly and is reached through the
  object \<^verbatim>\<open>fs\<close>; its operations appear here as fields of a record, and the order
  and the cap of its search results are stated on a model of its specification.
\<close>

section \<open>Strings and paths\<close>

text \<open>
  \<^verbatim>\<open>String.prototype.endsWith\<close>: the string ends with the given suffix.
\<close>

definition endsWith :: "string \<Rightarrow> string \<Rightarrow> bool" where
  "endsWith s suffix =
     (length suffix \<le> length s \<and> drop (length s - length suffix) s = suffix)"

text \<open>
  A directory tree as \<^verbatim>\<open>readdirSync\<close>, \<^verbatim>\<open>statSync\<close> and \<^verbatim>\<open>readFileSync\<close> see
  it: a directory is the list of its entries, in the order \<^verbatim>\<open>readdirSync\<close> returns
  them, each a name with the node it leads to; a file is its text decoded as UTF-8.
\<close>

datatype fsnode = File string | Dir "(string \<times> fsnode) list"

text \<open>
  Paths are those of \<^verbatim>\<open>node:path\<close> on POSIX. An absolute, normalised path is the
  list of its segments; \<open>join_sep\<close> writes a list of segments as a string, with a
  forward slash between two segments.
\<close>

fun join_sep :: "string list \<Rightarrow> string" where
  "join_sep [] = []"
| "join_sep [s] = s"
| "join_sep (s # t # ss) = s @ ''/'' @ join_sep (t # ss)"

text \<open>\<^verbatim>\<open>join(currentDir, entry)\<close>, for an entry name returned by \<^verbatim>\<open>readdirSync\<close>.\<close>

definition join :: "string list \<Rightarrow> string \<Rightarrow> string list" where
  "join dir entry = dir @ [entry]"

fun common_prefix :: "'a list \<Rightarrow> 'a list \<Rightarrow> nat" where
  "common_prefix (x # xs) (y # ys) = (if x = y then Suc (common_prefix xs ys) else 0)"
| "common_prefix _ _ = 0"

text \<open>
  \<^verbatim>\<open>relative(from, to)\<close>: one \<^verbatim>\<open>..\<close> for every segment of \<open>from\<close> below the
  common prefix, then the segments of \<open>to\<close> below it.
\<close>

definition relative :: "string list \<Rightarrow> string list \<Rightarrow> string" where
  "relative from to =
     (let c = common_prefix from to
      in join_sep (replicate (length from - c) ''..'' @ drop c to))"

section \<open>Collecting the markdown files (js/collect.mjs)\<close>

text \<open>
  The third argument is what \<^verbatim>\<open>readdirSync(currentDir)\<close> and \<^verbatim>\<open>statSync\<close> find
  at \<open>currentDir\<close>. The loop over the entries is the recursion over the list; the
  recursive call for a directory is given that directory's entries.
\<close>

fun collectMdFiles ::
  "string list \<Rightarrow> string list \<Rightarrow> (string \<times> fsnode) list \<Rightarrow> (string \<times> string) list" where
  "collectMdFiles rootDir currentDir [] = []"
| "collectMdFiles rootDir currentDir ((entry, node) # entries) =
     (case node of
        Dir sub \<Rightarrow> collectMdFiles rootDir (join currentDir entry) sub
      | File content \<Rightarrow>
          (if endsWith entry ''.md''
           then [(relative rootDir (join currentDir entry), content)]
           else []))
     @ collectMdFiles rootDir currentDir entries"

text \<open>
  The tree has a file with text \<open>c\<close> at the relative path whose segments are
  \<open>segs\<close>. This is the reference the collector is compared with.
\<close>

fun has_file :: "(string \<times> fsnode) list \<Rightarrow> string list \<Rightarrow> string \<Rightarrow> bool" where
  "has_file es [] c = False"
| "has_file es [n] c = ((n, File c) \<in> set es)"
| "has_file es (n # m # segs) c =
     list_ex (\<lambda>(k, nd). k = n \<and>
        (case nd of Dir sub \<Rightarrow> has_file sub (m # segs) c | File _ \<Rightarrow> False)) es"

text \<open>The number of files below the entries whose name ends in \<^verbatim>\<open>.md\<close>.\<close>

fun md_count :: "(string \<times> fsnode) list \<Rightarrow> nat" where
  "md_count [] = 0"
| "md_count ((entry, node) # entries) =
     (case node of
        Dir sub \<Rightarrow> md_count sub
      | File _ \<Rightarrow> (if endsWith entry ''.md'' then 1 else 0))
     + md_count entries"

text \<open>The fixture \<^verbatim>\<open>fixtures/nested\<close> of the tests, with one file that is no markdown.\<close>

definition nested_fixture :: "(string \<times> fsnode) list" where
  "nested_fixture =
     [(''subdir'', Dir [(''deep.md'', File ''nested inside subdir''),
                        (''notes.txt'', File ''not markdown'')]),
      (''top.md'', File ''Top level doc'')]"

section \<open>Sorting and the two loaders\<close>

text \<open>
  \<^verbatim>\<open>Array.prototype.sort(compareFn)\<close> is a stable sort: for a comparator that is a
  consistent total preorder its result is the one list that is ordered by the comparator
  and keeps elements that compare equal in their original order. Insertion from the
  right computes that list.
\<close>

fun insert_by :: "('a \<Rightarrow> 'a \<Rightarrow> int) \<Rightarrow> 'a \<Rightarrow> 'a list \<Rightarrow> 'a list" where
  "insert_by compareFn x [] = [x]"
| "insert_by compareFn x (y # ys) =
     (if compareFn x y \<le> 0 then x # y # ys else y # insert_by compareFn x ys)"

definition array_sort :: "('a \<Rightarrow> 'a \<Rightarrow> int) \<Rightarrow> 'a list \<Rightarrow> 'a list" where
  "array_sort compareFn xs = foldr (insert_by compareFn) xs []"

text \<open>
  Without a comparator, \<^verbatim>\<open>sort()\<close> orders strings by their code units, which is the
  lexicographic order of strings.
\<close>

definition code_unit_compare :: "string \<Rightarrow> string \<Rightarrow> int" where
  "code_unit_compare a b = (if a < b then - 1 else if a = b then 0 else 1)"

text \<open>
  What a comparator has to satisfy for \<^verbatim>\<open>sort\<close> to order by it.
\<close>

definition consistent_comparator :: "('a \<Rightarrow> 'a \<Rightarrow> int) \<Rightarrow> bool" where
  "consistent_comparator compareFn \<longleftrightarrow>
     (\<forall>a b. compareFn a b \<le> 0 \<or> compareFn b a \<le> 0) \<and>
     (\<forall>a b c. compareFn a b \<le> 0 \<and> compareFn b c \<le> 0 \<longrightarrow> compareFn a c \<le> 0)"

text \<open>
  \<^verbatim>\<open>String.prototype.localeCompare\<close> is the collation of the host's locale, so the
  loaders below take it as their first argument. \<open>root_collation\<close> is that collation as
  the Unicode root locale (and English) defines it on strings of ASCII letters, digits,
  \<^verbatim>\<open>-\<close>, \<^verbatim>\<open>.\<close> and \<^verbatim>\<open>/\<close>: strings are first compared with the case of
  letters ignored, and two strings that differ in case only are ordered by their first
  difference, the lower-case letter first.
\<close>

definition fold_case :: "char \<Rightarrow> char" where
  "fold_case c =
     (if CHR ''A'' \<le> c \<and> c \<le> CHR ''Z'' then char_of (of_char c + (32 :: nat)) else c)"

definition root_collation :: "string \<Rightarrow> string \<Rightarrow> int" where
  "root_collation a b =
     (let ka = map fold_case a; kb = map fold_case b
      in if ka < kb then - 1 else if kb < ka then 1
         else if a = b then 0 else if b < a then - 1 else 1)"

text \<open>
  The recursive \<^verbatim>\<open>loadFromDirectory\<close> (\<^verbatim>\<open>js/loader.mjs\<close> as the tests of
  \<^verbatim>\<open>js/loader.test.mjs\<close> use it): \<open>loader_docs\<close> is the array \<^verbatim>\<open>docs\<close> of its
  lines 28 to 31, and the function hands it to the constructor of the store.
  \<open>absDir\<close> is \<^verbatim>\<open>resolve(dir)\<close>, \<open>tree\<close> the directory found there.
\<close>

definition loader_docs ::
  "(string \<Rightarrow> string \<Rightarrow> int) \<Rightarrow> string list \<Rightarrow> (string \<times> fsnode) list \<Rightarrow> (string \<times> string) list" where
  "loader_docs localeCompare absDir tree =
     array_sort (\<lambda>a b. localeCompare (fst a) (fst b)) (collectMdFiles absDir absDir tree)"

definition loadFromDirectory ::
  "((string \<times> string) list \<Rightarrow> 'e + 'fs) \<Rightarrow> (string \<Rightarrow> string \<Rightarrow> int) \<Rightarrow>
     string list \<Rightarrow> (string \<times> fsnode) list \<Rightarrow> 'e + 'fs" where
  "loadFromDirectory new_MemexFS localeCompare absDir tree =
     new_MemexFS (loader_docs localeCompare absDir tree)"

text \<open>The array \<^verbatim>\<open>docs\<close> of the worker script (its lines 14 to 17).\<close>

definition worker_docs ::
  "(string \<Rightarrow> string \<Rightarrow> int) \<Rightarrow> string list \<Rightarrow> (string \<times> fsnode) list \<Rightarrow> (string \<times> string) list" where
  "worker_docs localeCompare absDir tree =
     array_sort (\<lambda>a b. localeCompare (fst a) (fst b)) (collectMdFiles absDir absDir tree)"

text \<open>
  The top-level \<^verbatim>\<open>loadFromDirectory\<close> of \<^verbatim>\<open>src/js/loader.mjs\<close>. It reads the
  entries of \<^verbatim>\<open>absDir\<close> only, keeps the names that end in \<^verbatim>\<open>.md\<close>, sorts them
  with the default order and reads each one; \<^verbatim>\<open>readFileSync\<close> throws on a name that
  is a directory.
\<close>

datatype fs_error = EISDIR string | ENOENT string

definition readFileSync :: "(string \<times> fsnode) list \<Rightarrow> string \<Rightarrow> fs_error + string" where
  "readFileSync tree f =
     (case map_of tree f of
        Some (File content) \<Rightarrow> Inr content
      | Some (Dir _) \<Rightarrow> Inl (EISDIR f)
      | None \<Rightarrow> Inl (ENOENT f))"

fun map_throwing :: "('a \<Rightarrow> 'e + 'b) \<Rightarrow> 'a list \<Rightarrow> 'e + 'b list" where
  "map_throwing f [] = Inr []"
| "map_throwing f (x # xs) =
     (case f x of
        Inl e \<Rightarrow> Inl e
      | Inr y \<Rightarrow> (case map_throwing f xs of Inl e \<Rightarrow> Inl e | Inr ys \<Rightarrow> Inr (y # ys)))"

definition toplevel_docs :: "(string \<times> fsnode) list \<Rightarrow> fs_error + (string \<times> string) list" where
  "toplevel_docs tree =
     (let files = array_sort code_unit_compare (filter (\<lambda>f. endsWith f ''.md'') (map fst tree))
      in map_throwing
           (\<lambda>f. case readFileSync tree f of Inl e \<Rightarrow> Inl e | Inr content \<Rightarrow> Inr (f, content))
           files)"

definition loadFromDirectory_toplevel ::
  "((string \<times> string) list \<Rightarrow> 'e + 'fs) \<Rightarrow> (string \<times> fsnode) list \<Rightarrow> fs_error + 'e + 'fs" where
  "loadFromDirectory_toplevel new_MemexFS tree =
     (case toplevel_docs tree of Inl e \<Rightarrow> Inl e | Inr docs \<Rightarrow> Inr (new_MemexFS docs))"

definition mixed_case_dir :: "(string \<times> fsnode) list" where
  "mixed_case_dir = [(''B.md'', File ''second''), (''a.md'', File ''first'')]"

text \<open>
  Some file below the entries has a name that ends in \<^verbatim>\<open>.md\<close>; and the condition
  under which the two loaders can agree: no directory among the entries of
  \<^verbatim>\<open>absDir\<close> has a name that ends in \<^verbatim>\<open>.md\<close> or holds such a file.
\<close>

fun has_md :: "(string \<times> fsnode) list \<Rightarrow> bool" where
  "has_md [] = False"
| "has_md ((entry, node) # entries) =
     ((case node of File _ \<Rightarrow> endsWith entry ''.md'' | Dir sub \<Rightarrow> has_md sub) \<or> has_md entries)"

definition markdown_at_top_level :: "(string \<times> fsnode) list \<Rightarrow> bool" where
  "markdown_at_top_level tree =
     list_all (\<lambda>(entry, node).
        case node of File _ \<Rightarrow> True | Dir sub \<Rightarrow> \<not> endsWith entry ''.md'' \<and> \<not> has_md sub) tree"

definition md_names :: "(string \<times> fsnode) list \<Rightarrow> string list" where
  "md_names tree = filter (\<lambda>f. endsWith f ''.md'') (map fst tree)"

definition flat_fixture :: "(string \<times> fsnode) list" where
  "flat_fixture =
     [(''tar.md'', File ''Archiving utility''), (''curl.md'', File ''Transfers data''),
      (''img'', Dir [(''logo.png'', File ''png'')]), (''README'', File ''fixtures'')]"

text \<open>
  Two notions for comparing the loaders: the markdown files among the entries
  themselves, and the text \<^verbatim>\<open>readFileSync\<close> returns for a name.
\<close>

fun md_entries :: "(string \<times> fsnode) list \<Rightarrow> (string \<times> string) list" where
  "md_entries [] = []"
| "md_entries ((n, File c) # es) = (if endsWith n ''.md'' then [(n, c)] else []) @ md_entries es"
| "md_entries ((n, Dir sub) # es) = md_entries es"

definition content_of :: "(string \<times> fsnode) list \<Rightarrow> string \<Rightarrow> string" where
  "content_of tree f = (case readFileSync tree f of Inr c \<Rightarrow> c | Inl _ \<Rightarrow> [])"

section \<open>The worker script\<close>

text \<open>
  The values that travel between the pool and a worker: arguments, results of the core
  and what \<^verbatim>\<open>JSON.parse\<close> returns.
\<close>

datatype jsval =
    Undefined
  | Null
  | Boolean bool
  | Num int
  | Str string
  | Arr "jsval list"
  | Obj "(string \<times> jsval) list"

text \<open>
  The object \<^verbatim>\<open>fs\<close>, an instance of the class \<^verbatim>\<open>MemexFS\<close> of
  \<^verbatim>\<open>pkg/memexfs.js\<close>, by the methods the worker calls. A method returns its value
  (\<open>Inr\<close>) or throws an error, of which \<open>Inl\<close> keeps the \<^verbatim>\<open>message\<close>; the
  tests of the pool rely on that message (\<^verbatim>\<open>/document not found/\<close>).
\<close>

record memexfs =
  fs_grep :: "jsval list \<Rightarrow> string + string"
  fs_read :: "jsval list \<Rightarrow> string + string"
  fs_ls :: "jsval list \<Rightarrow> string + string"
  fs_tool_definitions :: "string + string"
  fs_document_count :: "string + nat"

text \<open>
  A request \<^verbatim>\<open>{ id, method, args }\<close> of the pool, and the messages of a worker:
  \<^verbatim>\<open>{ type: "ready" }\<close>, \<^verbatim>\<open>{ id, result }\<close> (no field \<^verbatim>\<open>error\<close>) and
  \<^verbatim>\<open>{ id, error }\<close> (no field \<^verbatim>\<open>result\<close>).
\<close>

datatype request = Request (msg_id: nat) (req_method: string) (args: "jsval list")

datatype reply = Ready | Reply (reply_id: nat) (result: jsval) (error: "string option")

text \<open>
  The \<^verbatim>\<open>switch\<close> of the message handler: the value of \<^verbatim>\<open>result\<close>, or the message
  of the error thrown inside the \<^verbatim>\<open>try\<close>. \<open>JSON_parse\<close> is \<^verbatim>\<open>JSON.parse\<close>,
  which throws a \<^verbatim>\<open>SyntaxError\<close> on a text that is no JSON.
\<close>

definition invoke ::
  "(string \<Rightarrow> string + jsval) \<Rightarrow> memexfs \<Rightarrow> string \<Rightarrow> jsval list \<Rightarrow> string + jsval" where
  "invoke JSON_parse fs meth arguments =
     (if meth = ''grep'' then
        (case fs_grep fs arguments of Inl e \<Rightarrow> Inl e | Inr s \<Rightarrow> JSON_parse s)
      else if meth = ''read'' then
        (case fs_read fs arguments of Inl e \<Rightarrow> Inl e | Inr s \<Rightarrow> Inr (Str s))
      else if meth = ''ls'' then
        (case fs_ls fs arguments of Inl e \<Rightarrow> Inl e | Inr s \<Rightarrow> JSON_parse s)
      else if meth = ''toolDefinitions'' then
        (case fs_tool_definitions fs of Inl e \<Rightarrow> Inl e | Inr s \<Rightarrow> JSON_parse s)
      else if meth = ''documentCount'' then
        (case fs_document_count fs of Inl e \<Rightarrow> Inl e | Inr n \<Rightarrow> Inr (Num (int n)))
      else Inl (''unknown method: '' @ meth))"

text \<open>
  The handler of \<^verbatim>\<open>parentPort.on("message")\<close>: the list of the messages it posts.
\<close>

definition on_message ::
  "(string \<Rightarrow> string + jsval) \<Rightarrow> memexfs \<Rightarrow> request \<Rightarrow> reply list" where
  "on_message JSON_parse fs msg =
     (case invoke JSON_parse fs (req_method msg) (args msg) of
        Inr res \<Rightarrow> [Reply (msg_id msg) res None]
      | Inl message \<Rightarrow> [Reply (msg_id msg) Undefined (Some message)])"

text \<open>
  The whole script, run on the requests the worker receives in its life: the messages
  it posts, in order, and the error that ended it, if any. The module first builds the
  store (\<^verbatim>\<open>new MemexFS(JSON.stringify(docs))\<close>, here \<open>new_MemexFS\<close> applied to the
  list); an exception there ends the thread before anything is posted. Only then it
  posts \<^verbatim>\<open>ready\<close> and registers the handler; requests that arrived earlier have
  waited in the port.
\<close>

definition worker_script ::
  "((string \<times> string) list \<Rightarrow> string + memexfs) \<Rightarrow> (string \<Rightarrow> string \<Rightarrow> int) \<Rightarrow>
     (string \<Rightarrow> string + jsval) \<Rightarrow> string list \<Rightarrow> (string \<times> fsnode) list \<Rightarrow>
     request list \<Rightarrow> reply list \<times> string option" where
  "worker_script new_MemexFS localeCompare JSON_parse absDir tree inbox =
     (case new_MemexFS (worker_docs localeCompare absDir tree) of
        Inl e \<Rightarrow> ([], Some e)
      | Inr fs \<Rightarrow> (Ready # concat (map (on_message JSON_parse fs) inbox), None))"

text \<open>A store and a parser to run the worker on: two documents, fixed answers.\<close>

definition sample_fs :: memexfs where
  "sample_fs =
     \<lparr> fs_grep = (\<lambda>a. if a = [Str ''[''] then Inl ''invalid regex: ['' else Inr ''[]''),
       fs_read = (\<lambda>a. if a = [Str ''top.md''] then Inr ''1  Top level doc''
                       else Inl ''document not found: nonexistent.md''),
       fs_ls = (\<lambda>a. Inr ''[]''),
       fs_tool_definitions = Inr ''[{}, {}, {}]'',
       fs_document_count = Inr 2 \<rparr>"

definition sample_parse :: "string \<Rightarrow> string + jsval" where
  "sample_parse s =
     (if s = ''[]'' then Inr (Arr [])
      else if s = ''[{}, {}, {}]'' then Inr (Arr [Obj [], Obj [], Obj []])
      else Inl ''Unexpected token'')"

definition sample_new :: "(string \<times> string) list \<Rightarrow> string + memexfs" where
  "sample_new docs = (if docs = [] then Inl ''no documents'' else Inr sample_fs)"

section \<open>The worker pool\<close>

text \<open>
  The state of one pool, as the closure of \<^verbatim>\<open>createPool\<close> holds it. A worker is
  named by the number of \<^verbatim>\<open>new Worker\<close> calls made before it; \<^verbatim>\<open>spawnWorker\<close>
  creates one slot object for each worker, so a slot is named by its worker:
  \<open>slots\<close> is the array \<^verbatim>\<open>slots\<close> and \<open>pending p w\<close> the keys of the map
  \<^verbatim>\<open>pending\<close> of the slot of worker \<open>w\<close>, in insertion order. The value the map
  holds for a key \<open>i\<close>, \<^verbatim>\<open>{ resolve, reject }\<close>, settles the promise that
  \<^verbatim>\<open>dispatch\<close> returned for the request \<open>i\<close>; \<open>settled p i\<close> is the state of that
  promise. \<open>posted\<close> lists the calls of \<^verbatim>\<open>worker.postMessage\<close>. \<open>awaiting\<close> holds
  the workers on which \<^verbatim>\<open>createPool\<close> still listens for \<^verbatim>\<open>ready\<close>, and
  \<open>creation\<close> is the state of the promise \<^verbatim>\<open>createPool\<close> itself returns.
\<close>

datatype outcome = Resolved jsval | Rejected string

datatype creation = Waiting | Created | Failed string

record pool =
  slots :: "nat list"
  pending :: "nat \<Rightarrow> nat list"
  nextId :: nat
  terminated :: bool
  spawned :: nat
  posted :: "(nat \<times> request) list"
  settled :: "nat \<Rightarrow> outcome option"
  awaiting :: "nat list"
  creation :: creation

text \<open>\<^verbatim>\<open>Map.prototype.set\<close> on the keys, and settling a promise, which happens once.\<close>

definition map_set :: "nat \<Rightarrow> nat list \<Rightarrow> nat list" where
  "map_set i keys = (if i \<in> set keys then keys else keys @ [i])"

definition settle :: "nat \<Rightarrow> outcome \<Rightarrow> pool \<Rightarrow> pool" where
  "settle i out p =
     (case settled p i of
        None \<Rightarrow> p\<lparr>settled := (settled p)(i := Some out)\<rparr>
      | Some _ \<Rightarrow> p)"

text \<open>
  The decimal text of the exit code, as the template literal of the exit handler writes
  it into the message.
\<close>

definition digit :: "nat \<Rightarrow> char" where
  "digit d = char_of (of_char CHR ''0'' + d)"

function digits_onto :: "nat \<Rightarrow> string \<Rightarrow> string" where
  "digits_onto n acc =
     (let acc' = digit (n mod 10) # acc
      in if n div 10 = 0 then acc' else digits_onto (n div 10) acc')"
  by pat_completeness auto
termination
  by (relation "measure fst") auto

definition number_text :: "int \<Rightarrow> string" where
  "number_text code =
     (if 0 \<le> code then digits_onto (nat code) [] else CHR ''-'' # digits_onto (nat (- code)) [])"

text \<open>\<^verbatim>\<open>Array.prototype.indexOf\<close>: \<open>None\<close> stands for \<^verbatim>\<open>-1\<close>.\<close>

fun indexOf :: "'a list \<Rightarrow> 'a \<Rightarrow> nat option" where
  "indexOf [] x = None"
| "indexOf (y # ys) x = (if y = x then Some 0 else map_option Suc (indexOf ys x))"

text \<open>
  \<^verbatim>\<open>spawnWorker\<close>: a new worker with an empty map; the result is the new slot. Its
  three handlers are the functions \<open>on_worker_message\<close>, \<open>on_worker_error\<close> and
  \<open>on_worker_exit\<close>, each for the worker \<open>w\<close> it was registered on.
\<close>

definition spawnWorker :: "pool \<Rightarrow> nat \<times> pool" where
  "spawnWorker p =
     (spawned p, p\<lparr>spawned := Suc (spawned p), pending := (pending p)(spawned p := [])\<rparr>)"

definition on_worker_message :: "nat \<Rightarrow> reply \<Rightarrow> pool \<Rightarrow> pool" where
  "on_worker_message w msg p =
     (case msg of
        Ready \<Rightarrow> p
      | Reply i res err \<Rightarrow>
          if i \<notin> set (pending p w) then p
          else
            let p' = p\<lparr>pending := (pending p)(w := removeAll i (pending p w))\<rparr>
            in (case err of
                  Some e \<Rightarrow> settle i (Rejected e) p'
                | None \<Rightarrow> settle i (Resolved res) p'))"

definition reject_all :: "nat list \<Rightarrow> string \<Rightarrow> pool \<Rightarrow> pool" where
  "reject_all ids e p = fold (\<lambda>i. settle i (Rejected e)) ids p"

definition on_worker_error :: "nat \<Rightarrow> string \<Rightarrow> pool \<Rightarrow> pool" where
  "on_worker_error w err p =
     (let p' = reject_all (pending p w) err p
      in p'\<lparr>pending := (pending p')(w := [])\<rparr>)"

definition on_worker_exit :: "nat \<Rightarrow> int \<Rightarrow> pool \<Rightarrow> pool" where
  "on_worker_exit w code p =
     (if terminated p then p
      else
        let p1 = reject_all (pending p w) (''worker exited with code '' @ number_text code) p;
            p2 = p1\<lparr>pending := (pending p1)(w := [])\<rparr>
        in (case indexOf (slots p2) w of
              None \<Rightarrow> p2
            | Some idx \<Rightarrow>
                (case spawnWorker p2 of
                   (slot, p3) \<Rightarrow> p3\<lparr>slots := (slots p3)[idx := slot]\<rparr>)))"

text \<open>
  \<^verbatim>\<open>createPool\<close> up to its \<^verbatim>\<open>await\<close>: the loop that spawns \<open>workers\<close> workers (\<^verbatim>\<open>size\<close> of them), then
  the listeners \<^verbatim>\<open>onMessage\<close> and \<^verbatim>\<open>onError\<close> on each of them.
  \<^verbatim>\<open>Promise.all\<close> of no promise is resolved at once.
\<close>

fun spawn_loop :: "nat \<Rightarrow> pool \<Rightarrow> pool" where
  "spawn_loop 0 p = p"
| "spawn_loop (Suc n) p =
     spawn_loop n (case spawnWorker p of (slot, p') \<Rightarrow> p'\<lparr>slots := slots p' @ [slot]\<rparr>)"

definition createPool :: "nat \<Rightarrow> pool" where
  "createPool workers =
     (let p = spawn_loop workers
                \<lparr> slots = [], pending = (\<lambda>_. []), nextId = 0, terminated = False, spawned = 0,
                  posted = [], settled = (\<lambda>_. None), awaiting = [], creation = Waiting \<rparr>
      in p\<lparr>awaiting := slots p, creation := (if slots p = [] then Created else Waiting)\<rparr>)"

text \<open>
  The listeners of \<^verbatim>\<open>createPool\<close>. Each removes both listeners of its worker; the
  promise of \<^verbatim>\<open>Promise.all\<close> is resolved when the last worker has reported
  \<^verbatim>\<open>ready\<close> and is rejected by the first error.
\<close>

definition onMessage :: "nat \<Rightarrow> reply \<Rightarrow> pool \<Rightarrow> pool" where
  "onMessage w msg p =
     (if msg = Ready \<and> w \<in> set (awaiting p) then
        let rest = removeAll w (awaiting p)
        in p\<lparr>awaiting := rest,
              creation := (if rest = [] \<and> creation p = Waiting then Created else creation p)\<rparr>
      else p)"

definition onError :: "nat \<Rightarrow> string \<Rightarrow> pool \<Rightarrow> pool" where
  "onError w err p =
     (if w \<in> set (awaiting p) then
        p\<lparr>awaiting := removeAll w (awaiting p),
           creation := (if creation p = Waiting then Failed err else creation p)\<rparr>
      else p)"

text \<open>
  \<^verbatim>\<open>dispatch\<close>. With no slot at all, \<^verbatim>\<open>best\<close> is \<^verbatim>\<open>undefined\<close> and the executor
  of the promise throws a \<^verbatim>\<open>TypeError\<close>, which rejects the promise; nothing is posted.
  Otherwise the result is the promise of the request \<open>nextId\<close>.
\<close>

datatype promise = Promise_of nat | Promise_rejected string

definition least_pending :: "pool \<Rightarrow> nat \<Rightarrow> nat list \<Rightarrow> nat" where
  "least_pending p first rest =
     fold (\<lambda>s best. if length (pending p s) < length (pending p best) then s else best) rest first"

definition dispatch :: "string \<Rightarrow> jsval list \<Rightarrow> pool \<Rightarrow> promise \<times> pool" where
  "dispatch meth arguments p =
     (if terminated p then (Promise_rejected ''pool is terminated'', p)
      else
        (case slots p of
           [] \<Rightarrow>
             (Promise_rejected ''Cannot read properties of undefined'',
              p\<lparr>nextId := Suc (nextId p)\<rparr>)
         | first # rest \<Rightarrow>
             let best = least_pending p first rest;
                 i = nextId p
             in (Promise_of i,
                 p\<lparr>nextId := Suc i,
                   pending := (pending p)(best := map_set i (pending p best)),
                   posted := posted p @ [(best, Request i meth arguments)]\<rparr>)))"

text \<open>The object \<^verbatim>\<open>createPool\<close> returns. An argument left out is \<open>Undefined\<close>.\<close>

definition pool_grep :: "jsval \<Rightarrow> jsval \<Rightarrow> pool \<Rightarrow> promise \<times> pool" where
  "pool_grep pattern glob p =
     dispatch ''grep'' (if glob \<noteq> Undefined then [pattern, glob] else [pattern]) p"

definition pool_read :: "jsval \<Rightarrow> jsval \<Rightarrow> jsval \<Rightarrow> pool \<Rightarrow> promise \<times> pool" where
  "pool_read path offset limit p =
     dispatch ''read''
       ([path] @ (if offset \<noteq> Undefined then [offset] else [])
               @ (if limit \<noteq> Undefined then [limit] else [])) p"

definition pool_ls :: "jsval \<Rightarrow> pool \<Rightarrow> promise \<times> pool" where
  "pool_ls path p = dispatch ''ls'' [path] p"

definition pool_toolDefinitions :: "pool \<Rightarrow> promise \<times> pool" where
  "pool_toolDefinitions p = dispatch ''toolDefinitions'' [] p"

definition pool_documentCount :: "pool \<Rightarrow> promise \<times> pool" where
  "pool_documentCount p = dispatch ''documentCount'' [] p"

definition terminate :: "pool \<Rightarrow> pool" where
  "terminate p = p\<lparr>terminated := True\<rparr>"

text \<open>
  What happens to a pool, one event at a time: a call of \<^verbatim>\<open>dispatch\<close> through one of
  the five methods, a message, an error or the exit of a worker, and \<^verbatim>\<open>terminate\<close>.
  For a message and for an error, the handler of \<^verbatim>\<open>spawnWorker\<close> runs before the
  listener of \<^verbatim>\<open>createPool\<close>, as they were registered.
\<close>

datatype event =
    Call string "jsval list"
  | WorkerMessage nat reply
  | WorkerError nat string
  | WorkerExit nat int
  | Terminate

fun step :: "event \<Rightarrow> pool \<Rightarrow> pool" where
  "step (Call meth arguments) p = snd (dispatch meth arguments p)"
| "step (WorkerMessage w msg) p = onMessage w msg (on_worker_message w msg p)"
| "step (WorkerError w err) p = onError w err (on_worker_error w err p)"
| "step (WorkerExit w code) p = on_worker_exit w code p"
| "step Terminate p = terminate p"

definition run :: "event list \<Rightarrow> pool \<Rightarrow> pool" where
  "run events p = fold step events p"

text \<open>
  A pool of two workers after both are ready and three calls: the requests 0 and 2 are
  pending on worker 0, the request 1 on worker 1.
\<close>

definition busy_pool :: pool where
  "busy_pool =
     run [WorkerMessage 0 Ready, WorkerMessage 1 Ready, Call ''grep'' [Str ''archive''],
          Call ''ls'' [Str ''''], Call ''documentCount'' []] (createPool 2)"

text \<open>
  What holds of every pool that \<^verbatim>\<open>createPool\<close> and the events produce: a request in
  a map of pending requests has an unsettled promise and an id below \<open>nextId\<close>, no
  promise of a later id is settled, no request is pending on two workers, the keys of a
  map and the slots are distinct, the workers in the slots have been spawned, a worker
  not yet spawned has nothing pending, and the ids of the posted requests are distinct
  and below \<open>nextId\<close>.
\<close>

definition pool_inv :: "pool \<Rightarrow> bool" where
  "pool_inv p \<longleftrightarrow>
     (\<forall>w. \<forall>i\<in>set (pending p w). settled p i = None \<and> i < nextId p) \<and>
     (\<forall>i. nextId p \<le> i \<longrightarrow> settled p i = None) \<and>
     (\<forall>w w' i. i \<in> set (pending p w) \<and> i \<in> set (pending p w') \<longrightarrow> w = w') \<and>
     (\<forall>w. distinct (pending p w)) \<and>
     (\<forall>w\<in>set (slots p). w < spawned p) \<and>
     (\<forall>w. spawned p \<le> w \<longrightarrow> pending p w = []) \<and>
     distinct (slots p) \<and>
     distinct (map (msg_id \<circ> snd) (posted p)) \<and>
     (\<forall>m\<in>set (posted p). msg_id (snd m) < nextId p)"


text \<open>
  The start of a pool of two workers in which worker 0 reports \<^verbatim>\<open>ready\<close> and then
  exits with code 1 before worker 1 reports \<^verbatim>\<open>ready\<close>.
\<close>

definition respawn_events :: "event list" where
  "respawn_events = [WorkerMessage 0 Ready, WorkerExit 0 1, WorkerMessage 1 Ready]"

definition respawned_pool :: pool where
  "respawned_pool = run respawn_events (createPool 2)"

section \<open>The search of the core\<close>

text \<open>
  Modelled from the spec: the operation \<^verbatim>\<open>grep\<close> of the search core, which is written
  in Rust (\<^verbatim>\<open>src/lib.rs\<close>, \<^verbatim>\<open>src/store.rs\<close>) and is not among the sources at hand.
  A document is a path with its lines. Of the algorithm of the query engine, the
  classification of the pattern and the three ways of matching (steps 1, 3, 4 and 5) are
  the argument \<open>line_matcher\<close>, which fails for a pattern that does not compile and
  otherwise tells which lines match; the meaning of a glob (step 2) is the argument
  \<open>glob_match\<close>. The model writes out the rest: the candidate documents, one
  result for a matching line (step 6), the sort by path, then line (step 7), and the cap
  of 100 on the sorted list (step 8).
\<close>

type_synonym document = "string \<times> string list"

record grep_result =
  gr_path :: string
  gr_line :: nat
  gr_content :: string

datatype grep_error = InvalidPattern string

definition candidates ::
  "(string \<Rightarrow> string \<Rightarrow> bool) \<Rightarrow> document list \<Rightarrow> string option \<Rightarrow> document list" where
  "candidates glob_match docs glob =
     (case glob of None \<Rightarrow> docs | Some g \<Rightarrow> filter (\<lambda>d. glob_match g (fst d)) docs)"

definition document_matches :: "(string \<Rightarrow> bool) \<Rightarrow> document \<Rightarrow> grep_result list" where
  "document_matches matches d =
     map (\<lambda>(n, l). \<lparr>gr_path = fst d, gr_line = Suc n, gr_content = l\<rparr>)
       (filter (\<lambda>(n, l). matches l) (enumerate 0 (snd d)))"

definition all_matches ::
  "(string \<Rightarrow> bool) \<Rightarrow> (string \<Rightarrow> string \<Rightarrow> bool) \<Rightarrow> document list \<Rightarrow> string option \<Rightarrow>
     grep_result list" where
  "all_matches matches glob_match docs glob =
     concat (map (document_matches matches) (candidates glob_match docs glob))"

definition result_key :: "grep_result \<Rightarrow> string \<times> nat" where
  "result_key r = (gr_path r, gr_line r)"

definition MAX_RESULTS :: nat where
  "MAX_RESULTS = 100"

definition grep ::
  "(string \<Rightarrow> string + (string \<Rightarrow> bool)) \<Rightarrow> (string \<Rightarrow> string \<Rightarrow> bool) \<Rightarrow> document list \<Rightarrow>
     string \<Rightarrow> string option \<Rightarrow> grep_error + grep_result list" where
  "grep line_matcher glob_match docs pattern glob =
     (case line_matcher pattern of
        Inl e \<Rightarrow> Inl (InvalidPattern e)
      | Inr matches \<Rightarrow>
          Inr (take MAX_RESULTS
                 (sort_key result_key (all_matches matches glob_match docs glob))))"

text \<open>
  The order the results are to be in, and what it is for a result to be a matching line
  of a candidate document.
\<close>

definition path_then_line :: "grep_result \<Rightarrow> grep_result \<Rightarrow> bool" where
  "path_then_line a b \<longleftrightarrow>
     gr_path a < gr_path b \<or> (gr_path a = gr_path b \<and> gr_line a \<le> gr_line b)"

definition is_match ::
  "(string \<Rightarrow> bool) \<Rightarrow> (string \<Rightarrow> string \<Rightarrow> bool) \<Rightarrow> document list \<Rightarrow> string option \<Rightarrow>
     grep_result \<Rightarrow> bool" where
  "is_match matches glob_match docs glob r \<longleftrightarrow>
     list_ex (\<lambda>d. (case glob of None \<Rightarrow> True | Some g \<Rightarrow> glob_match g (fst d)) \<and>
                fst d = gr_path r \<and> 0 < gr_line r \<and> gr_line r \<le> length (snd d) \<and>
                snd d ! (gr_line r - 1) = gr_content r \<and> matches (gr_content r)) docs"

text \<open>
  A store of two documents, the second before the first: 101 lines that mention
  \<^verbatim>\<open>file\<close> in \<^verbatim>\<open>a.md\<close>, and two lines of \<^verbatim>\<open>b.md\<close>, one of which does.
\<close>

definition long_store :: "document list" where
  "long_store = [(''b.md'', [''a file'', ''nothing'']), (''a.md'', replicate 101 ''file'')]"

definition mentions_file :: "string \<Rightarrow> string + (string \<Rightarrow> bool)" where
  "mentions_file pattern =
     (if pattern = ''['' then Inl ''invalid regex: [''
      else Inr (\<lambda>l. l = ''file'' \<or> l = ''a file''))"

section \<open>Facts about the sort\<close>

lemma set_insert_by: "set (insert_by cmp x ys) = insert x (set ys)"
  by (induction ys) auto

lemma mset_insert_by: "mset (insert_by cmp x ys) = add_mset x (mset ys)"
  by (induction ys) auto

lemma mset_array_sort: "mset (array_sort cmp xs) = mset xs"
  by (induction xs) (simp_all add: array_sort_def mset_insert_by)

lemma set_array_sort: "set (array_sort cmp xs) = set xs"
  using mset_array_sort[of cmp xs] by (metis set_mset_mset)

lemma array_sort_Cons: "array_sort cmp (x # xs) = insert_by cmp x (array_sort cmp xs)"
  by (simp add: array_sort_def)

lemma sorted_insert_by:
  assumes "consistent_comparator cmp" and "sorted_wrt (\<lambda>x y. cmp x y \<le> 0) ys"
  shows "sorted_wrt (\<lambda>x y. cmp x y \<le> 0) (insert_by cmp x ys)"
  using assms(2)
proof (induction ys)
  case Nil
  then show ?case by simp
next
  case (Cons y ys)
  have total: "\<And>a b. cmp a b \<le> 0 \<or> cmp b a \<le> 0"
    and trans: "\<And>a b c. cmp a b \<le> 0 \<Longrightarrow> cmp b c \<le> 0 \<Longrightarrow> cmp a c \<le> 0"
    using assms(1) unfolding consistent_comparator_def by blast+
  show ?case
  proof (cases "cmp x y \<le> 0")
    case True
    then have "\<forall>z\<in>set ys. cmp x z \<le> 0"
      using Cons.prems trans by auto
    with True Cons.prems show ?thesis by simp
  next
    case False
    then have "cmp y x \<le> 0" using total[of x y] by simp
    with False Cons show ?thesis by (auto simp: set_insert_by)
  qed
qed

lemma sorted_array_sort:
  "consistent_comparator cmp \<Longrightarrow> sorted_wrt (\<lambda>x y. cmp x y \<le> 0) (array_sort cmp xs)"
  by (induction xs) (simp_all add: array_sort_Cons sorted_insert_by, simp add: array_sort_def)

lemma consistent_on_fst:
  "consistent_comparator cmp \<Longrightarrow> consistent_comparator (\<lambda>a b. cmp (fst a) (fst b))"
  unfolding consistent_comparator_def by blast

lemma consistent_code_unit_compare: "consistent_comparator code_unit_compare"
  unfolding consistent_comparator_def code_unit_compare_def by auto

lemma code_unit_compare_le: "code_unit_compare a b \<le> 0 \<longleftrightarrow> a \<le> b"
  unfolding code_unit_compare_def by auto

lemma root_collation_le:
  "root_collation a b \<le> 0 \<longleftrightarrow>
     map fold_case a < map fold_case b \<or> (map fold_case a = map fold_case b \<and> b \<le> a)"
  unfolding root_collation_def Let_def by auto

lemma consistent_root_collation: "consistent_comparator root_collation"
  unfolding consistent_comparator_def root_collation_le by auto

section \<open>Facts about the handlers of the pool\<close>

lemma settle_fields [simp]:
  "slots (settle i out p) = slots p" "pending (settle i out p) = pending p"
  "nextId (settle i out p) = nextId p" "terminated (settle i out p) = terminated p"
  "spawned (settle i out p) = spawned p" "posted (settle i out p) = posted p"
  "awaiting (settle i out p) = awaiting p" "creation (settle i out p) = creation p"
  by (simp_all add: settle_def split: option.splits)

lemma settled_settle:
  "settled (settle i out p) j =
     (if j = i \<and> settled p i = None then Some out else settled p j)"
  by (simp add: settle_def split: option.splits)

lemma reject_all_fields [simp]:
  "slots (reject_all ids e p) = slots p" "pending (reject_all ids e p) = pending p"
  "nextId (reject_all ids e p) = nextId p" "terminated (reject_all ids e p) = terminated p"
  "spawned (reject_all ids e p) = spawned p" "posted (reject_all ids e p) = posted p"
  "awaiting (reject_all ids e p) = awaiting p" "creation (reject_all ids e p) = creation p"
  unfolding reject_all_def by (induction ids arbitrary: p; simp)+

lemma settled_reject_all:
  "settled (reject_all ids e p) j =
     (if j \<in> set ids \<and> settled p j = None then Some (Rejected e) else settled p j)"
  unfolding reject_all_def
  by (induction ids arbitrary: p) (auto simp: settled_settle)

lemma least_pending_props:
  "least_pending p first rest \<in> set (first # rest) \<and>
   length (pending p (least_pending p first rest)) \<le> length (pending p first) \<and>
   (\<forall>s\<in>set rest. length (pending p (least_pending p first rest)) \<le> length (pending p s))"
  unfolding least_pending_def
proof (induction rest arbitrary: first)
  case Nil
  then show ?case by simp
next
  case (Cons s rest)
  let ?b = "if length (pending p s) < length (pending p first) then s else first"
  from Cons[of ?b] show ?case by (auto split: if_splits)
qed

lemma on_worker_message_fields [simp]:
  "slots (on_worker_message w msg p) = slots p"
  "nextId (on_worker_message w msg p) = nextId p"
  "terminated (on_worker_message w msg p) = terminated p"
  "spawned (on_worker_message w msg p) = spawned p"
  "posted (on_worker_message w msg p) = posted p"
  "awaiting (on_worker_message w msg p) = awaiting p"
  "creation (on_worker_message w msg p) = creation p"
  by (simp_all add: on_worker_message_def Let_def split: reply.splits option.splits)

lemma on_worker_error_fields [simp]:
  "slots (on_worker_error w e p) = slots p"
  "nextId (on_worker_error w e p) = nextId p"
  "terminated (on_worker_error w e p) = terminated p"
  "spawned (on_worker_error w e p) = spawned p"
  "posted (on_worker_error w e p) = posted p"
  "awaiting (on_worker_error w e p) = awaiting p"
  "creation (on_worker_error w e p) = creation p"
  by (simp_all add: on_worker_error_def Let_def)

lemma onMessage_fields [simp]:
  "slots (onMessage w msg p) = slots p" "pending (onMessage w msg p) = pending p"
  "nextId (onMessage w msg p) = nextId p" "terminated (onMessage w msg p) = terminated p"
  "spawned (onMessage w msg p) = spawned p" "posted (onMessage w msg p) = posted p"
  "settled (onMessage w msg p) = settled p"
  by (simp_all add: onMessage_def Let_def)

lemma onError_fields [simp]:
  "slots (onError w e p) = slots p" "pending (onError w e p) = pending p"
  "nextId (onError w e p) = nextId p" "terminated (onError w e p) = terminated p"
  "spawned (onError w e p) = spawned p" "posted (onError w e p) = posted p"
  "settled (onError w e p) = settled p"
  by (simp_all add: onError_def)

lemma on_worker_exit_fields [simp]:
  "nextId (on_worker_exit w code p) = nextId p"
  "terminated (on_worker_exit w code p) = terminated p"
  "posted (on_worker_exit w code p) = posted p"
  "awaiting (on_worker_exit w code p) = awaiting p"
  "creation (on_worker_exit w code p) = creation p"
  by (simp_all add: on_worker_exit_def spawnWorker_def Let_def split: option.splits)

lemma spawn_loop_fields [simp]:
  "nextId (spawn_loop n p) = nextId p" "terminated (spawn_loop n p) = terminated p"
  "posted (spawn_loop n p) = posted p" "settled (spawn_loop n p) = settled p"
  "awaiting (spawn_loop n p) = awaiting p" "creation (spawn_loop n p) = creation p"
  by (induction n arbitrary: p; simp add: spawnWorker_def)+

lemma spawn_loop_slots:
  "slots (spawn_loop n p) = slots p @ [spawned p ..< spawned p + n] \<and>
   spawned (spawn_loop n p) = spawned p + n"
proof (induction n arbitrary: p)
  case 0
  then show ?case by simp
next
  case (Suc n)
  show ?case
    by (auto simp: Suc spawnWorker_def upt_conv_Cons)
qed

lemma spawn_loop_pending:
  "pending (spawn_loop n p) w =
     (if spawned p \<le> w \<and> w < spawned p + n then [] else pending p w)"
  by (induction n arbitrary: p) (auto simp: spawnWorker_def)

lemma createPool_fields:
  "slots (createPool n) = [0..<n]" "spawned (createPool n) = n"
  "pending (createPool n) w = []" "nextId (createPool n) = 0"
  "\<not> terminated (createPool n)" "posted (createPool n) = []"
  "settled (createPool n) i = None" "awaiting (createPool n) = [0..<n]"
  "creation (createPool n) = (if n = 0 then Created else Waiting)"
  by (simp_all add: createPool_def Let_def spawn_loop_slots spawn_loop_pending)

lemma inv_createPool: "pool_inv (createPool n)"
  by (simp add: pool_inv_def createPool_fields)

lemma inv_onMessage [simp]: "pool_inv (onMessage w msg p) = pool_inv p"
  by (simp add: pool_inv_def)

lemma inv_onError [simp]: "pool_inv (onError w e p) = pool_inv p"
  by (simp add: pool_inv_def)

lemma inv_terminate [simp]: "pool_inv (terminate p) = pool_inv p"
  by (simp add: pool_inv_def terminate_def)


lemma inv_D:
  assumes "pool_inv p"
  shows "i \<in> set (pending p w) \<Longrightarrow> settled p i = None"
    and "i \<in> set (pending p w) \<Longrightarrow> i < nextId p"
    and "nextId p \<le> i \<Longrightarrow> settled p i = None"
    and "i \<in> set (pending p w) \<Longrightarrow> i \<in> set (pending p w') \<Longrightarrow> w = w'"
    and "distinct (pending p w)"
    and "w \<in> set (slots p) \<Longrightarrow> w < spawned p"
    and "spawned p \<le> w \<Longrightarrow> pending p w = []"
    and "distinct (slots p)"
    and "distinct (map (msg_id \<circ> snd) (posted p))"
    and "m \<in> set (posted p) \<Longrightarrow> msg_id (snd m) < nextId p"
  using assms unfolding pool_inv_def by blast+

lemma inv_I:
  assumes "\<And>w i. i \<in> set (pending p w) \<Longrightarrow> settled p i = None \<and> i < nextId p"
    and "\<And>i. nextId p \<le> i \<Longrightarrow> settled p i = None"
    and "\<And>w w' i. i \<in> set (pending p w) \<Longrightarrow> i \<in> set (pending p w') \<Longrightarrow> w = w'"
    and "\<And>w. distinct (pending p w)"
    and "\<And>w. w \<in> set (slots p) \<Longrightarrow> w < spawned p"
    and "\<And>w. spawned p \<le> w \<Longrightarrow> pending p w = []"
    and "distinct (slots p)"
    and "distinct (map (msg_id \<circ> snd) (posted p))"
    and "\<And>m. m \<in> set (posted p) \<Longrightarrow> msg_id (snd m) < nextId p"
  shows "pool_inv p"
  unfolding pool_inv_def using assms by blast

lemma inv_dispatch:
  assumes "pool_inv p"
  shows "pool_inv (snd (dispatch meth arguments p))"
proof (cases "terminated p")
  case True
  with assms show ?thesis by (simp add: dispatch_def)
next
  case False
  note D = inv_D[OF assms]
  show ?thesis
  proof (cases "slots p")
    case Nil
    have d: "snd (dispatch meth arguments p) = p\<lparr>nextId := Suc (nextId p)\<rparr>"
      using False Nil by (simp add: dispatch_def)
    show ?thesis
      unfolding d
    proof (rule inv_I)
      fix m assume "m \<in> set (posted (p\<lparr>nextId := Suc (nextId p)\<rparr>))"
      then show "msg_id (snd m) < nextId (p\<lparr>nextId := Suc (nextId p)\<rparr>)"
        using D(10)[of m] by simp
    next
      fix w i assume "i \<in> set (pending (p\<lparr>nextId := Suc (nextId p)\<rparr>) w)"
      then show "settled (p\<lparr>nextId := Suc (nextId p)\<rparr>) i = None \<and>
          i < nextId (p\<lparr>nextId := Suc (nextId p)\<rparr>)"
        using D(1,2)[of i w] by simp
    qed (use D in \<open>simp_all\<close>)
  next
    case (Cons first rest)
    define best where "best = least_pending p first rest"
    define q where "q = p\<lparr>nextId := Suc (nextId p),
        pending := (pending p)(best := map_set (nextId p) (pending p best)),
        posted := posted p @ [(best, Request (nextId p) meth arguments)]\<rparr>"
    have d: "snd (dispatch meth arguments p) = q"
      using False Cons by (simp add: dispatch_def Let_def q_def best_def)
    have fresh: "\<And>w. nextId p \<notin> set (pending p w)"
      using D(2) by (metis less_irrefl)
    have pq: "\<And>w. pending q w = (if w = best then pending p best @ [nextId p] else pending p w)"
      using fresh by (simp add: q_def map_set_def)
    have fq: "nextId q = Suc (nextId p)" "settled q = settled p" "slots q = slots p"
      "spawned q = spawned p" "posted q = posted p @ [(best, Request (nextId p) meth arguments)]"
      by (simp_all add: q_def)
    have "best \<in> set (slots p)"
      using least_pending_props[of p first rest] Cons unfolding best_def by simp
    then have bs: "best < spawned p" by (rule D(6))
    show ?thesis
      unfolding d
    proof (rule inv_I)
      fix w i assume "i \<in> set (pending q w)"
      then have "i \<in> set (pending p w) \<or> i = nextId p"
        by (auto simp: pq split: if_splits)
      then show "settled q i = None \<and> i < nextId q"
        using D(1,2)[of i w] D(3)[of i] by (auto simp: fq)
    next
      fix i assume "nextId q \<le> i"
      then show "settled q i = None" using D(3)[of i] by (simp add: fq)
    next
      fix w w' i assume a: "i \<in> set (pending q w)" "i \<in> set (pending q w')"
      show "w = w'"
      proof (cases "i = nextId p")
        case True
        with a fresh show ?thesis by (auto simp: pq split: if_splits)
      next
        case False
        with a have "i \<in> set (pending p w)" "i \<in> set (pending p w')"
          by (auto simp: pq split: if_splits)
        then show ?thesis by (rule D(4))
      qed
    next
      fix w show "distinct (pending q w)"
        using D(5)[of w] fresh[of w] by (auto simp: pq)
    next
      fix w assume "w \<in> set (slots q)"
      then show "w < spawned q" using D(6)[of w] by (simp add: fq)
    next
      fix w assume "spawned q \<le> w"
      then show "pending q w = []" using D(7)[of w] bs by (simp add: pq fq)
    next
      show "distinct (slots q)" using D(8) by (simp add: fq)
    next
      have "nextId p \<notin> (msg_id \<circ> snd) ` set (posted p)"
        using D(10) by fastforce
      then show "distinct (map (msg_id \<circ> snd) (posted q))"
        using D(9) by (simp add: fq)
    next
      fix m assume "m \<in> set (posted q)"
      then show "msg_id (snd m) < nextId q"
        using D(10)[of m] by (auto simp: fq)
    qed
  qed
qed

lemma on_worker_message_pending:
  "pending (on_worker_message w msg p) w' =
     (case msg of Ready \<Rightarrow> pending p w'
      | Reply i res err \<Rightarrow> if w' = w then removeAll i (pending p w) else pending p w')"
  by (auto simp: on_worker_message_def Let_def split: reply.splits option.splits)

lemma on_worker_message_settled:
  "settled (on_worker_message w msg p) j =
     (case msg of Ready \<Rightarrow> settled p j
      | Reply i res err \<Rightarrow>
          if j = i \<and> i \<in> set (pending p w) \<and> settled p i = None
          then Some (case err of Some e \<Rightarrow> Rejected e | None \<Rightarrow> Resolved res)
          else settled p j)"
  by (auto simp: on_worker_message_def Let_def settled_settle split: reply.splits option.splits)

lemma inv_on_worker_message:
  assumes "pool_inv p"
  shows "pool_inv (on_worker_message w msg p)"
proof (cases msg)
  case Ready
  with assms show ?thesis by (simp add: on_worker_message_def)
next
  case (Reply i res err)
  note D = inv_D[OF assms]
  let ?q = "on_worker_message w msg p"
  have pq: "\<And>w'. pending ?q w' = (if w' = w then removeAll i (pending p w) else pending p w')"
    using Reply by (simp add: on_worker_message_pending)
  have sq: "\<And>j. settled ?q j = (if j = i \<and> i \<in> set (pending p w) \<and> settled p i = None
          then Some (case err of Some e \<Rightarrow> Rejected e | None \<Rightarrow> Resolved res)
          else settled p j)"
    using Reply by (simp add: on_worker_message_settled)
  have sub: "\<And>w' j. j \<in> set (pending ?q w') \<Longrightarrow> j \<in> set (pending p w')"
    by (auto simp: pq split: if_splits)
  show ?thesis
  proof (rule inv_I)
    fix w' j assume a: "j \<in> set (pending ?q w')"
    have "\<not> (j = i \<and> i \<in> set (pending p w))"
    proof
      assume b: "j = i \<and> i \<in> set (pending p w)"
      with sub[OF a] have "w' = w" using D(4)[of i w' w] by simp
      with a b show False by (simp add: pq)
    qed
    then have "settled ?q j = settled p j" by (auto simp: sq)
    then show "settled ?q j = None \<and> j < nextId ?q"
      using D(1,2)[OF sub[OF a]] by simp
  next
    fix j assume "nextId ?q \<le> j"
    then have "settled p j = None" "j \<notin> set (pending p w)"
      using D(3)[of j] D(2)[of j w] by auto
    then show "settled ?q j = None" by (auto simp: sq)
  next
    fix w' w'' j assume "j \<in> set (pending ?q w')" "j \<in> set (pending ?q w'')"
    then show "w' = w''" using sub D(4) by blast
  next
    fix w' show "distinct (pending ?q w')"
      using D(5) by (simp add: pq distinct_removeAll)
  next
    fix w' assume "spawned ?q \<le> w'"
    then show "pending ?q w' = []" using D(7)[of w'] by (auto simp: pq)
  qed (use D in \<open>simp_all\<close>)
qed

lemma on_worker_error_pending:
  "pending (on_worker_error w e p) w' = (if w' = w then [] else pending p w')"
  by (simp add: on_worker_error_def Let_def)

lemma on_worker_error_settled:
  "settled (on_worker_error w e p) j =
     (if j \<in> set (pending p w) \<and> settled p j = None then Some (Rejected e) else settled p j)"
  by (simp add: on_worker_error_def Let_def settled_reject_all)

lemma inv_on_worker_error:
  assumes "pool_inv p"
  shows "pool_inv (on_worker_error w e p)"
proof -
  note D = inv_D[OF assms]
  let ?q = "on_worker_error w e p"
  note pq = on_worker_error_pending[of w e p] and sq = on_worker_error_settled[of w e p]
  have sub: "\<And>w' j. j \<in> set (pending ?q w') \<Longrightarrow> j \<in> set (pending p w') \<and> w' \<noteq> w"
    by (auto simp: pq split: if_splits)
  show ?thesis
  proof (rule inv_I)
    fix w' j assume a: "j \<in> set (pending ?q w')"
    then have "j \<notin> set (pending p w)" using sub[OF a] D(4)[of j w' w] by auto
    then have "settled ?q j = settled p j" by (simp add: sq)
    then show "settled ?q j = None \<and> j < nextId ?q"
      using D(1,2)[of j w'] sub[OF a] by simp
  next
    fix j assume "nextId ?q \<le> j"
    then have "settled p j = None" "j \<notin> set (pending p w)"
      using D(3)[of j] D(2)[of j w] by auto
    then show "settled ?q j = None" by (simp add: sq)
  next
    fix w' w'' j assume "j \<in> set (pending ?q w')" "j \<in> set (pending ?q w'')"
    then show "w' = w''" using sub D(4) by blast
  next
    fix w' show "distinct (pending ?q w')"
      using D(5) by (simp add: pq)
  next
    fix w' assume "spawned ?q \<le> w'"
    then show "pending ?q w' = []" using D(7)[of w'] by (simp add: pq)
  qed (use D in \<open>simp_all\<close>)
qed


lemma indexOf_None: "indexOf xs x = None \<longleftrightarrow> x \<notin> set xs"
  by (induction xs) auto

lemma indexOf_Some: "indexOf xs x = Some i \<Longrightarrow> i < length xs \<and> xs ! i = x"
  by (induction xs arbitrary: i) (auto split: if_splits)

lemma indexOf_mem: "indexOf xs x = Some i \<Longrightarrow> x \<in> set xs"
  using indexOf_None[of xs x] by auto

lemma on_worker_exit_pending:
  "\<not> terminated p \<Longrightarrow>
   pending (on_worker_exit w code p) w' =
     (if w' = w \<or> (w' = spawned p \<and> w \<in> set (slots p)) then [] else pending p w')"
  by (auto simp: on_worker_exit_def Let_def spawnWorker_def indexOf_None dest: indexOf_mem
      split: option.splits)

lemma on_worker_exit_settled:
  "\<not> terminated p \<Longrightarrow>
   settled (on_worker_exit w code p) j =
     (if j \<in> set (pending p w) \<and> settled p j = None
      then Some (Rejected (''worker exited with code '' @ number_text code))
      else settled p j)"
  by (simp add: on_worker_exit_def Let_def spawnWorker_def settled_reject_all split: option.splits)

lemma on_worker_exit_slots:
  "\<not> terminated p \<Longrightarrow>
   slots (on_worker_exit w code p) =
     (case indexOf (slots p) w of None \<Rightarrow> slots p | Some idx \<Rightarrow> (slots p)[idx := spawned p]) \<and>
   spawned (on_worker_exit w code p) =
     (case indexOf (slots p) w of None \<Rightarrow> spawned p | Some idx \<Rightarrow> Suc (spawned p))"
  by (simp add: on_worker_exit_def Let_def spawnWorker_def split: option.splits)

lemma inv_on_worker_exit:
  assumes "pool_inv p"
  shows "pool_inv (on_worker_exit w code p)"
proof (cases "terminated p")
  case True
  with assms show ?thesis by (simp add: on_worker_exit_def)
next
  case False
  note D = inv_D[OF assms]
  let ?q = "on_worker_exit w code p"
  note pq = on_worker_exit_pending[OF False, of w code]
    and sq = on_worker_exit_settled[OF False, of w code]
    and lq = on_worker_exit_slots[OF False, of w code]
  have sub: "\<And>w' j. j \<in> set (pending ?q w') \<Longrightarrow> j \<in> set (pending p w') \<and> w' \<noteq> w"
    by (auto simp: pq split: if_splits)
  have sp: "spawned p \<le> spawned ?q"
    by (simp add: lq split: option.splits)
  show ?thesis
  proof (rule inv_I)
    fix w' j assume a: "j \<in> set (pending ?q w')"
    then have "j \<notin> set (pending p w)" using sub[OF a] D(4)[of j w' w] by auto
    then have "settled ?q j = settled p j" by (simp add: sq)
    then show "settled ?q j = None \<and> j < nextId ?q"
      using D(1,2)[of j w'] sub[OF a] by simp
  next
    fix j assume "nextId ?q \<le> j"
    then have "settled p j = None" "j \<notin> set (pending p w)"
      using D(3)[of j] D(2)[of j w] by auto
    then show "settled ?q j = None" by (simp add: sq)
  next
    fix w' w'' j assume "j \<in> set (pending ?q w')" "j \<in> set (pending ?q w'')"
    then show "w' = w''" using sub D(4) by blast
  next
    fix w' show "distinct (pending ?q w')"
      using D(5) by (simp add: pq)
  next
    fix w' assume "spawned ?q \<le> w'"
    then have "spawned p \<le> w'" using sp by simp
    then show "pending ?q w' = []" using D(7)[of w'] by (simp add: pq)
  next
    fix w' assume a: "w' \<in> set (slots ?q)"
    show "w' < spawned ?q"
    proof (cases "indexOf (slots p) w")
      case None
      with a D(6)[of w'] show ?thesis by (simp add: lq)
    next
      case (Some idx)
      with a have "w' \<in> insert (spawned p) (set (slots p))"
        using set_update_subset_insert[of "slots p" idx "spawned p"] by (auto simp: lq)
      with Some D(6)[of w'] show ?thesis by (auto simp: lq)
    qed
  next
    show "distinct (slots ?q)"
    proof (cases "indexOf (slots p) w")
      case None
      with D(8) show ?thesis by (simp add: lq)
    next
      case (Some idx)
      have "spawned p \<notin> set (slots p)" using D(6)[of "spawned p"] by auto
      with Some D(8) show ?thesis by (simp add: lq distinct_list_update)
    qed
  qed (use D in \<open>simp_all\<close>)
qed

lemma inv_step: "pool_inv p \<Longrightarrow> pool_inv (step e p)"
  by (cases e)
    (simp_all add: inv_dispatch inv_on_worker_message inv_on_worker_error inv_on_worker_exit)

lemma inv_run: "pool_inv p \<Longrightarrow> pool_inv (run events p)"
  unfolding run_def by (induction events arbitrary: p) (simp_all add: inv_step)

lemma length_slots_step: "length (slots (step e p)) = length (slots p)"
proof (cases e)
  case (Call meth arguments)
  then show ?thesis
    by (simp add: dispatch_def Let_def split: list.splits)
next
  case (WorkerExit w code)
  then show ?thesis
    by (cases "terminated p")
      (simp add: on_worker_exit_def, simp add: on_worker_exit_slots split: option.splits)
qed (simp_all add: terminate_def)

lemma length_slots_run: "length (slots (run events p)) = length (slots p)"
  unfolding run_def by (induction events arbitrary: p) (simp_all add: length_slots_step)



section \<open>The collector returns exactly the markdown files\<close>

lemma common_prefix_append: "common_prefix xs (xs @ ys) = length xs"
  by (induction xs) auto

lemma relative_under_root: "relative root (root @ xs) = join_sep xs"
  by (simp add: relative_def common_prefix_append)

lemma has_file_Nil [simp]: "\<not> has_file [] segs c"
proof (cases segs)
  case Nil
  then show ?thesis by simp
next
  case (Cons n rest)
  then show ?thesis by (cases rest) simp_all
qed

lemma has_file_Cons_File:
  "has_file ((e, File x) # es) segs c \<longleftrightarrow> (segs = [e] \<and> x = c) \<or> has_file es segs c"
proof (cases segs)
  case Nil
  then show ?thesis by simp
next
  case (Cons n rest)
  then show ?thesis by (cases rest) auto
qed

lemma has_file_Cons_Dir:
  "has_file ((e, Dir sub) # es) segs c \<longleftrightarrow>
     (\<exists>rest. segs = e # rest \<and> rest \<noteq> [] \<and> has_file sub rest c) \<or> has_file es segs c"
proof (cases segs)
  case Nil
  then show ?thesis by simp
next
  case (Cons n rest)
  show ?thesis
  proof (cases rest)
    case Nil
    with Cons show ?thesis by simp
  next
    case (Cons m segs')
    with \<open>segs = n # rest\<close> show ?thesis by simp blast
  qed
qed

lemma relative_under_root2: "relative root ((root @ pre) @ xs) = join_sep (pre @ xs)"
  using relative_under_root[of root "pre @ xs"] by simp

lemma collect_under:
  "currentDir = rootDir @ pre \<Longrightarrow>
   (p, c) \<in> set (collectMdFiles rootDir currentDir es) \<longleftrightarrow>
     (\<exists>segs. has_file es segs c \<and> endsWith (last segs) ''.md'' \<and> p = join_sep (pre @ segs))"
proof (induction rootDir currentDir es arbitrary: pre rule: collectMdFiles.induct)
  case (1 rootDir currentDir)
  then show ?case by simp
next
  case (2 rootDir currentDir entry node entries)
  note cur = \<open>currentDir = rootDir @ pre\<close>
  have rest: "(p, c) \<in> set (collectMdFiles rootDir currentDir entries) \<longleftrightarrow>
        (\<exists>segs. has_file entries segs c \<and> endsWith (last segs) ''.md'' \<and> p = join_sep (pre @ segs))"
    using "2.IH"(2)[OF cur] .
  show ?case
  proof (cases node)
    case (File content)
    have "(p, c) \<in> set (collectMdFiles rootDir currentDir ((entry, node) # entries)) \<longleftrightarrow>
        (endsWith entry ''.md'' \<and> p = join_sep (pre @ [entry]) \<and> c = content) \<or>
        (p, c) \<in> set (collectMdFiles rootDir currentDir entries)"
      using File cur relative_under_root[of rootDir "pre @ [entry]"] by (auto simp: join_def)
    also have "\<dots> \<longleftrightarrow> (\<exists>segs. has_file ((entry, node) # entries) segs c \<and>
        endsWith (last segs) ''.md'' \<and> p = join_sep (pre @ segs))"
      unfolding rest using File by (auto simp: has_file_Cons_File)
    finally show ?thesis .
  next
    case (Dir sub)
    have j: "join currentDir entry = rootDir @ (pre @ [entry])"
      using cur by (simp add: join_def)
    have a: "(\<exists>segs. has_file sub segs c \<and> endsWith (last segs) ''.md'' \<and> p = join_sep ((pre @ [entry]) @ segs))
         \<longleftrightarrow> (\<exists>segs. (\<exists>rest. segs = entry # rest \<and> rest \<noteq> [] \<and> has_file sub rest c) \<and>
                endsWith (last segs) ''.md'' \<and> p = join_sep (pre @ segs))" (is "?L \<longleftrightarrow> ?R")
    proof
      assume ?L
      then obtain segs where s: "has_file sub segs c" "endsWith (last segs) ''.md''"
          "p = join_sep ((pre @ [entry]) @ segs)" by blast
      from s(1) have ne: "segs \<noteq> []" by auto
      have "(\<exists>rest. entry # segs = entry # rest \<and> rest \<noteq> [] \<and> has_file sub rest c) \<and>
          endsWith (last (entry # segs)) ''.md'' \<and> p = join_sep (pre @ entry # segs)"
        using s ne by simp
      then show ?R by (rule exI)
    next
      assume ?R
      then obtain rest where r: "rest \<noteq> []" "has_file sub rest c"
          "endsWith (last (entry # rest)) ''.md''" "p = join_sep (pre @ entry # rest)" by blast
      have "has_file sub rest c \<and> endsWith (last rest) ''.md'' \<and> p = join_sep ((pre @ [entry]) @ rest)"
        using r by simp
      then show ?L by (rule exI)
    qed
    have "(p, c) \<in> set (collectMdFiles rootDir currentDir ((entry, node) # entries)) \<longleftrightarrow>
        (p, c) \<in> set (collectMdFiles rootDir (join currentDir entry) sub) \<or>
        (p, c) \<in> set (collectMdFiles rootDir currentDir entries)"
      using Dir by auto
    also have "\<dots> \<longleftrightarrow> (\<exists>segs. has_file ((entry, node) # entries) segs c \<and>
        endsWith (last segs) ''.md'' \<and> p = join_sep (pre @ segs))"
      unfolding rest "2.IH"(1)[OF Dir j] a Dir has_file_Cons_Dir by blast
    finally show ?thesis .
  qed
qed

lemma length_collectMdFiles: "length (collectMdFiles rootDir currentDir es) = md_count es"
  by (induction rootDir currentDir es rule: collectMdFiles.induct) (auto split: fsnode.splits)

text \<open>
  Claim C1. For every directory tree, \<open>collectMdFiles rootDir rootDir\<close> returns a pair
  \<open>(p, c)\<close> exactly when the tree has, at some depth, a file with text \<open>c\<close> whose
  name ends in \<^verbatim>\<open>.md\<close>, and \<open>p\<close> is the path of that file relative to \<open>rootDir\<close>,
  its segments separated by forward slashes. A file whose name does not end in
  \<^verbatim>\<open>.md\<close> contributes no pair, and there are as many pairs as files whose name does.
\<close>

theorem collectMdFiles_exact:
  "((p, c) \<in> set (collectMdFiles rootDir rootDir tree) \<longleftrightarrow>
     (\<exists>segs. has_file tree segs c \<and> endsWith (last segs) ''.md'' \<and> p = join_sep segs))
   \<and> length (collectMdFiles rootDir rootDir tree) = md_count tree"
  using collect_under[of rootDir rootDir "[]" p c tree] length_collectMdFiles by simp

theorem collectMdFiles_exact_witness:
  "(''subdir/deep.md'', ''nested inside subdir'')
     \<in> set (collectMdFiles [''fixtures'', ''nested''] [''fixtures'', ''nested''] nested_fixture)
   \<and> (''subdir/notes.txt'', ''not markdown'')
     \<notin> set (collectMdFiles [''fixtures'', ''nested''] [''fixtures'', ''nested''] nested_fixture)
   \<and> length (collectMdFiles [''fixtures'', ''nested''] [''fixtures'', ''nested''] nested_fixture) = 2"
proof (intro conjI)
  have "has_file nested_fixture [''subdir'', ''deep.md''] ''nested inside subdir'' \<and>
        endsWith (last [''subdir'', ''deep.md'']) ''.md'' \<and>
        ''subdir/deep.md'' = join_sep [''subdir'', ''deep.md'']"
    by (simp add: nested_fixture_def endsWith_def)
  then have "\<exists>segs. has_file nested_fixture segs ''nested inside subdir'' \<and>
        endsWith (last segs) ''.md'' \<and> ''subdir/deep.md'' = join_sep segs"
    by (rule exI)
  then show "(''subdir/deep.md'', ''nested inside subdir'')
     \<in> set (collectMdFiles [''fixtures'', ''nested''] [''fixtures'', ''nested''] nested_fixture)"
    using collectMdFiles_exact by blast
next
  show "(''subdir/notes.txt'', ''not markdown'')
     \<notin> set (collectMdFiles [''fixtures'', ''nested''] [''fixtures'', ''nested''] nested_fixture)"
    by (simp add: nested_fixture_def endsWith_def join_def relative_def)
next
  have "md_count nested_fixture = 2"
    by (simp add: nested_fixture_def endsWith_def)
  then show "length (collectMdFiles [''fixtures'', ''nested''] [''fixtures'', ''nested''] nested_fixture) = 2"
    using collectMdFiles_exact[of "''top.md''" "''Top level doc''" "[''fixtures'', ''nested'']"
        nested_fixture]
    by simp
qed

section \<open>The list handed to the constructor\<close>

text \<open>
  Claim C2, as the code has it. The recursive loader and every pool worker hand the
  constructor the same list: the collected pairs, reordered by \<^verbatim>\<open>localeCompare\<close> on
  the paths. For every collation that is a consistent comparator the list is ascending
  in that collation and a permutation of what the collector returned; it is in ascending
  lexicographic order of the paths whenever the collation orders the collected paths as
  their code units do.
\<close>

theorem docs_sorted_by_collation:
  assumes "consistent_comparator localeCompare"
  shows "sorted_wrt (\<lambda>x y. localeCompare (fst x) (fst y) \<le> 0) (loader_docs localeCompare absDir tree)
     \<and> worker_docs localeCompare absDir tree = loader_docs localeCompare absDir tree
     \<and> mset (loader_docs localeCompare absDir tree) = mset (collectMdFiles absDir absDir tree)
     \<and> ((\<forall>a\<in>fst ` set (collectMdFiles absDir absDir tree).
          \<forall>b\<in>fst ` set (collectMdFiles absDir absDir tree). (localeCompare a b \<le> 0) = (a \<le> b))
        \<longrightarrow> sorted (map fst (loader_docs localeCompare absDir tree)))"
proof (intro conjI impI)
  show s: "sorted_wrt (\<lambda>x y. localeCompare (fst x) (fst y) \<le> 0) (loader_docs localeCompare absDir tree)"
    unfolding loader_docs_def using sorted_array_sort[OF consistent_on_fst[OF assms]] .
  show "worker_docs localeCompare absDir tree = loader_docs localeCompare absDir tree"
    by (simp add: worker_docs_def loader_docs_def)
  show "mset (loader_docs localeCompare absDir tree) = mset (collectMdFiles absDir absDir tree)"
    by (simp add: loader_docs_def mset_array_sort)
  assume agree: "\<forall>a\<in>fst ` set (collectMdFiles absDir absDir tree).
          \<forall>b\<in>fst ` set (collectMdFiles absDir absDir tree). (localeCompare a b \<le> 0) = (a \<le> b)"
  have "set (loader_docs localeCompare absDir tree) = set (collectMdFiles absDir absDir tree)"
    by (simp add: loader_docs_def set_array_sort)
  with agree have "sorted_wrt (\<lambda>x y. fst x \<le> fst y) (loader_docs localeCompare absDir tree)"
    by (intro sorted_wrt_mono_rel[OF _ s]) auto
  then show "sorted (map fst (loader_docs localeCompare absDir tree))"
    by (simp add: sorted_map)
qed

theorem docs_sorted_by_collation_witness:
  "sorted (map fst (loader_docs code_unit_compare [''fixtures'', ''nested''] nested_fixture))
   \<and> worker_docs code_unit_compare [''fixtures'', ''nested''] nested_fixture =
       [(''subdir/deep.md'', ''nested inside subdir''), (''top.md'', ''Top level doc'')]"
proof -
  have w: "worker_docs code_unit_compare [''fixtures'', ''nested''] nested_fixture =
       [(''subdir/deep.md'', ''nested inside subdir''), (''top.md'', ''Top level doc'')]"
    by code_simp
  show ?thesis
    using docs_sorted_by_collation[OF consistent_code_unit_compare, of "[''fixtures'', ''nested'']" nested_fixture]
    by (simp add: code_unit_compare_le w)
qed

text \<open>
  Claim C2 as stated fails: a directory with the files \<^verbatim>\<open>B.md\<close> and \<^verbatim>\<open>a.md\<close> is
  handed over as \<^verbatim>\<open>a.md\<close>, \<^verbatim>\<open>B.md\<close>, which is not the lexicographic order of the
  paths.
\<close>

theorem docs_not_lexicographic:
  "loader_docs root_collation [''docs''] mixed_case_dir = [(''a.md'', ''first''), (''B.md'', ''second'')]
   \<and> \<not> sorted (map fst (loader_docs root_collation [''docs''] mixed_case_dir))"
  by code_simp

section \<open>Dispatch to the least busy worker\<close>

text \<open>
  Claim C3, as the code has it. On a pool that is not terminated and has at least one
  slot, \<^verbatim>\<open>dispatch\<close> posts the request, and nothing else, to a slot of the pool
  whose map of pending requests is, before the request is added, no larger than that of
  any slot of the pool; the request is then added to the map of that slot.
\<close>

theorem dispatch_least_pending:
  assumes "\<not> terminated p" and "slots p \<noteq> []"
  shows "\<exists>best. best \<in> set (slots p)
     \<and> (\<forall>s\<in>set (slots p). length (pending p best) \<le> length (pending p s))
     \<and> fst (dispatch meth arguments p) = Promise_of (nextId p)
     \<and> posted (snd (dispatch meth arguments p)) =
         posted p @ [(best, Request (nextId p) meth arguments)]
     \<and> pending (snd (dispatch meth arguments p)) =
         (pending p)(best := map_set (nextId p) (pending p best))"
proof -
  from assms(2) obtain first rest where sl: "slots p = first # rest"
    by (cases "slots p") auto
  let ?best = "least_pending p first rest"
  have "?best \<in> set (slots p)"
    and "\<forall>s\<in>set (slots p). length (pending p ?best) \<le> length (pending p s)"
    using least_pending_props[of p first rest] sl by auto
  moreover have "fst (dispatch meth arguments p) = Promise_of (nextId p)"
    and "posted (snd (dispatch meth arguments p)) =
         posted p @ [(?best, Request (nextId p) meth arguments)]"
    and "pending (snd (dispatch meth arguments p)) =
         (pending p)(?best := map_set (nextId p) (pending p ?best))"
    using assms(1) sl by (simp_all add: dispatch_def Let_def)
  ultimately show ?thesis by blast
qed

lemma busy_pool_state:
  "\<not> terminated busy_pool" "slots busy_pool = [0, 1]" "nextId busy_pool = 3"
  "pending busy_pool 0 = [0, 2]" "pending busy_pool (Suc 0) = [1]" "pending busy_pool 1 = [1]"
  by code_simp+

theorem dispatch_least_pending_witness:
  "posted (snd (dispatch ''read'' [Str ''top.md''] busy_pool)) =
     posted busy_pool @ [(1, Request 3 ''read'' [Str ''top.md''])]
   \<and> length (pending busy_pool 1) = 1 \<and> length (pending busy_pool 0) = 2"
proof -
  obtain best where b: "best \<in> set (slots busy_pool)"
      "\<forall>s\<in>set (slots busy_pool). length (pending busy_pool best) \<le> length (pending busy_pool s)"
      "posted (snd (dispatch ''read'' [Str ''top.md''] busy_pool)) =
         posted busy_pool @ [(best, Request (nextId busy_pool) ''read'' [Str ''top.md''])]"
    using dispatch_least_pending[of busy_pool "''read''" "[Str ''top.md'']"] busy_pool_state
    by auto
  from b(1,2) have "best = 1"
    by (auto simp: busy_pool_state)
  with b(3) show ?thesis by (simp add: busy_pool_state)
qed

text \<open>
  Claim C3 as stated fails on the pool of \<^verbatim>\<open>createPool(dir, { workers: 0 })\<close>: it
  is created and not terminated, and a call posts nothing and returns a rejected
  promise, since no slot exists.
\<close>

theorem dispatch_empty_pool:
  "\<not> terminated (createPool 0) \<and> creation (createPool 0) = Created
   \<and> slots (createPool 0) = []
   \<and> fst (dispatch ''grep'' [Str ''archive''] (createPool 0)) =
        Promise_rejected ''Cannot read properties of undefined''
   \<and> posted (snd (dispatch ''grep'' [Str ''archive''] (createPool 0))) = []"
  by (simp add: createPool_def dispatch_def)

section \<open>The exit of a worker\<close>

text \<open>
  Claim C4. Let a pool be in any state that \<^verbatim>\<open>createPool\<close> and later events lead to,
  not terminated, and let the worker of one of its slots exit. Then the exit handler
  rejects the promise of every request pending on that worker, with the message
  \<^verbatim>\<open>worker exited with code\<close> and the code, and empties the map of that slot; it
  puts a newly spawned worker, with an empty map, at the index of the exited one, so the
  pool has as many slots as \<^verbatim>\<open>createPool\<close> made; the map of every other worker and
  the promises of the requests pending there stay as they were.
\<close>

theorem worker_exit_respawns:
  assumes "p = run events (createPool workers)" and "\<not> terminated p" and "w \<in> set (slots p)"
  shows "(\<forall>i\<in>set (pending p w). settled (on_worker_exit w code p) i =
            Some (Rejected (''worker exited with code '' @ number_text code)))
     \<and> pending (on_worker_exit w code p) w = []
     \<and> (\<exists>idx<length (slots p). slots p ! idx = w \<and>
            slots (on_worker_exit w code p) = (slots p)[idx := spawned p])
     \<and> spawned p \<notin> set (slots p)
     \<and> pending (on_worker_exit w code p) (spawned p) = []
     \<and> spawned (on_worker_exit w code p) = Suc (spawned p)
     \<and> length (slots (on_worker_exit w code p)) = workers
     \<and> (\<forall>w'. w' \<noteq> w \<longrightarrow>
            pending (on_worker_exit w code p) w' = pending p w' \<and>
            (\<forall>i\<in>set (pending p w'). settled (on_worker_exit w code p) i = settled p i))"
proof -
  have inv: "pool_inv p"
    unfolding assms(1) by (rule inv_run[OF inv_createPool])
  note D = inv_D[OF inv]
  let ?q = "on_worker_exit w code p"
  note pq = on_worker_exit_pending[OF assms(2), of w code]
    and sq = on_worker_exit_settled[OF assms(2), of w code]
    and lq = on_worker_exit_slots[OF assms(2), of w code]
  obtain idx where idx: "indexOf (slots p) w = Some idx"
    using assms(3) indexOf_None[of "slots p" w] by (cases "indexOf (slots p) w") auto
  have len: "length (slots p) = workers"
    unfolding assms(1) by (simp add: length_slots_run createPool_fields)
  have "\<forall>i\<in>set (pending p w). settled ?q i =
            Some (Rejected (''worker exited with code '' @ number_text code))"
    using D(1)[of _ w] by (simp add: sq)
  moreover have "pending ?q w = []" "pending ?q (spawned p) = []"
    using assms(3) by (simp_all add: pq)
  moreover have "\<exists>idx<length (slots p). slots p ! idx = w \<and> slots ?q = (slots p)[idx := spawned p]"
    using indexOf_Some[OF idx] idx by (auto simp: lq)
  moreover have "spawned p \<notin> set (slots p)"
    using D(6)[of "spawned p"] by auto
  moreover have "spawned ?q = Suc (spawned p)" "length (slots ?q) = workers"
    using idx len by (simp_all add: lq)
  moreover have "\<forall>w'. w' \<noteq> w \<longrightarrow> pending ?q w' = pending p w' \<and>
            (\<forall>i\<in>set (pending p w'). settled ?q i = settled p i)"
  proof (intro allI impI conjI ballI)
    fix w' assume "w' \<noteq> w"
    then show "pending ?q w' = pending p w'"
      using D(7)[of w'] by (auto simp: pq)
  next
    fix w' i assume "w' \<noteq> w" "i \<in> set (pending p w')"
    then have "i \<notin> set (pending p w)" using D(4)[of i w' w] by auto
    then show "settled ?q i = settled p i" by (simp add: sq)
  qed
  ultimately show ?thesis by blast
qed

theorem worker_exit_respawns_witness:
  "settled (on_worker_exit 0 1 busy_pool) 0 = Some (Rejected ''worker exited with code 1'')
   \<and> settled (on_worker_exit 0 1 busy_pool) 2 = Some (Rejected ''worker exited with code 1'')
   \<and> settled (on_worker_exit 0 1 busy_pool) 1 = None
   \<and> pending (on_worker_exit 0 1 busy_pool) 0 = []
   \<and> pending (on_worker_exit 0 1 busy_pool) 1 = [1]
   \<and> slots (on_worker_exit 0 1 busy_pool) = [2, 1]"
proof -
  have m: "0 \<in> set (slots busy_pool)" by (simp add: busy_pool_state)
  have s: "spawned busy_pool = 2" "settled busy_pool 1 = None" "settled busy_pool (Suc 0) = None"
    by code_simp+
  have n: "number_text 1 = ''1''" by code_simp
  note t = worker_exit_respawns[OF busy_pool_def busy_pool_state(1) m, of 1]
  from t have "\<exists>idx<length (slots busy_pool). slots busy_pool ! idx = 0 \<and>
      slots (on_worker_exit 0 1 busy_pool) = (slots busy_pool)[idx := spawned busy_pool]"
    by blast
  then have "slots (on_worker_exit 0 1 busy_pool) = [2, 1]"
    by (auto simp: busy_pool_state s less_Suc_eq)
  moreover from t have "settled (on_worker_exit 0 1 busy_pool) 0 = Some (Rejected ''worker exited with code 1'')"
    "settled (on_worker_exit 0 1 busy_pool) 2 = Some (Rejected ''worker exited with code 1'')"
    "pending (on_worker_exit 0 1 busy_pool) 0 = []"
    by (simp_all add: busy_pool_state n)
  moreover from t have "pending (on_worker_exit 0 1 busy_pool) 1 = pending busy_pool 1 \<and>
      (\<forall>i\<in>set (pending busy_pool 1). settled (on_worker_exit 0 1 busy_pool) i = settled busy_pool i)"
    by (metis zero_neq_one)
  then have "pending (on_worker_exit 0 1 busy_pool) 1 = [1]" "settled (on_worker_exit 0 1 busy_pool) 1 = None"
    by (simp_all add: busy_pool_state s)
  ultimately show ?thesis by simp
qed

section \<open>Ready before any request\<close>

lemma run_snoc: "run (events @ [e]) p = step e (run events p)"
  by (simp add: run_def)

lemma step_creation:
  "awaiting (step e p) = (case e of
       WorkerMessage w msg \<Rightarrow> if msg = Ready then removeAll w (awaiting p) else awaiting p
     | WorkerError w err \<Rightarrow> removeAll w (awaiting p)
     | _ \<Rightarrow> awaiting p)"
  "creation (step e p) = (case e of
       WorkerMessage w msg \<Rightarrow>
         if msg = Ready \<and> w \<in> set (awaiting p) \<and> removeAll w (awaiting p) = [] \<and>
            creation p = Waiting then Created else creation p
     | WorkerError w err \<Rightarrow>
         if w \<in> set (awaiting p) \<and> creation p = Waiting then Failed err else creation p
     | _ \<Rightarrow> creation p)"
  by (cases e; simp add: onMessage_def onError_def Let_def dispatch_def terminate_def
      split: list.splits)+

lemma creation_inv:
  "(creation (run events (createPool workers)) = Created \<longrightarrow>
      awaiting (run events (createPool workers)) = []) \<and>
   (\<forall>w<workers. w \<in> set (awaiting (run events (createPool workers))) \<or>
      WorkerMessage w Ready \<in> set events \<or>
      (\<exists>e. creation (run events (createPool workers)) = Failed e))"
proof (induction events rule: rev_induct)
  case Nil
  show ?case by (simp add: run_def createPool_fields)
next
  case (snoc e events)
  let ?p = "run events (createPool workers)"
  from snoc have c: "creation ?p = Created \<Longrightarrow> awaiting ?p = []"
    and a: "\<And>w. w < workers \<Longrightarrow> w \<in> set (awaiting ?p) \<or> WorkerMessage w Ready \<in> set events \<or>
      (\<exists>e. creation ?p = Failed e)"
    by blast+
  have 1: "creation (step e ?p) = Created \<longrightarrow> awaiting (step e ?p) = []"
    using c by (cases e) (auto simp: step_creation simp del: step.simps split: if_splits)
  have 2: "w \<in> set (awaiting (step e ?p)) \<or> WorkerMessage w Ready \<in> set (events @ [e]) \<or>
      (\<exists>x. creation (step e ?p) = Failed x)" if "w < workers" for w
  proof (cases e)
    case (WorkerMessage w' msg)
    then show ?thesis
      using a[OF that] by (auto simp: step_creation simp del: step.simps)
  next
    case (WorkerError w' err)
    show ?thesis
    proof (cases "creation ?p")
      case Waiting
      with WorkerError a[OF that] show ?thesis by (auto simp: step_creation simp del: step.simps)
    next
      case Created
      with c have "awaiting ?p = []" by simp
      with WorkerError Created a[OF that] show ?thesis by (auto simp: step_creation simp del: step.simps)
    next
      case (Failed x)
      with WorkerError show ?thesis by (simp add: step_creation del: step.simps)
    qed
  qed (use a[OF that] in \<open>auto simp: step_creation simp del: step.simps\<close>)
  show ?case
    unfolding run_snoc using 1 2 by blast
qed

lemma on_message_no_ready: "Ready \<notin> set (concat (map (on_message JSON_parse fs) inbox))"
  by (induction inbox) (auto simp: on_message_def split: sum.splits)

lemma slots_step_no_exit:
  "(\<forall>w code. e \<noteq> WorkerExit w code) \<Longrightarrow> slots (step e p) = slots p"
  by (cases e) (simp_all add: dispatch_def Let_def terminate_def split: list.splits)

lemma slots_run_no_exit:
  "(\<forall>w code. WorkerExit w code \<notin> set events) \<Longrightarrow> slots (run events p) = slots p"
proof (induction events rule: rev_induct)
  case Nil
  show ?case by (simp add: run_def)
next
  case (snoc e events)
  then have "slots (run events p) = slots p" "\<forall>w code. e \<noteq> WorkerExit w code"
    by auto
  then show ?case
    unfolding run_snoc by (simp add: slots_step_no_exit del: step.simps)
qed

text \<open>
  Claim C5, as the code has it. \<^verbatim>\<open>createPool\<close> listens for \<^verbatim>\<open>ready\<close> on the
  workers its loop has put into the slots, and its promise is resolved only when a
  \<^verbatim>\<open>ready\<close> message of every one of them has arrived before. When no worker has
  exited by then, these are still all the workers in the slots of the pool. A worker
  that posts anything has built its store first: the constructor has returned the store,
  \<^verbatim>\<open>ready\<close> is the first message the worker posts and is posted once, and every
  other message is the answer of the handler, computed on that store, to a request;
  a worker whose constructor throws posts nothing. This holds of every worker, a
  respawned one too, so no request is answered from a store that is not fully built.
\<close>

theorem ready_before_requests:
  "slots (createPool workers) = [0..<workers]
   \<and> awaiting (createPool workers) = slots (createPool workers)
   \<and> (creation (run events (createPool workers)) = Created \<longrightarrow>
        (\<forall>w\<in>set (slots (createPool workers)). WorkerMessage w Ready \<in> set events) \<and>
        ((\<forall>w code. WorkerExit w code \<notin> set events) \<longrightarrow>
           (\<forall>w\<in>set (slots (run events (createPool workers))).
              WorkerMessage w Ready \<in> set events)))
   \<and> (fst (worker_script new_MemexFS localeCompare JSON_parse absDir tree inbox) \<noteq> [] \<longrightarrow>
        (\<exists>fs. new_MemexFS (worker_docs localeCompare absDir tree) = Inr fs
           \<and> fst (worker_script new_MemexFS localeCompare JSON_parse absDir tree inbox) =
               Ready # concat (map (on_message JSON_parse fs) inbox)
           \<and> Ready \<notin> set (concat (map (on_message JSON_parse fs) inbox))))"
proof (intro conjI impI)
  show "slots (createPool workers) = [0..<workers]"
    "awaiting (createPool workers) = slots (createPool workers)"
    by (simp_all add: createPool_fields)
next
  assume cr: "creation (run events (createPool workers)) = Created"
  with creation_inv[of events workers]
  show initial: "\<forall>w\<in>set (slots (createPool workers)). WorkerMessage w Ready \<in> set events"
    by (auto simp: createPool_fields)
  assume "\<forall>w code. WorkerExit w code \<notin> set events"
  then have "slots (run events (createPool workers)) = slots (createPool workers)"
    by (rule slots_run_no_exit)
  with initial
  show "\<forall>w\<in>set (slots (run events (createPool workers))). WorkerMessage w Ready \<in> set events"
    by simp
next
  assume ne: "fst (worker_script new_MemexFS localeCompare JSON_parse absDir tree inbox) \<noteq> []"
  show "\<exists>fs. new_MemexFS (worker_docs localeCompare absDir tree) = Inr fs
           \<and> fst (worker_script new_MemexFS localeCompare JSON_parse absDir tree inbox) =
               Ready # concat (map (on_message JSON_parse fs) inbox)
           \<and> Ready \<notin> set (concat (map (on_message JSON_parse fs) inbox))"
  proof (cases "new_MemexFS (worker_docs localeCompare absDir tree)")
    case (Inl e)
    with ne show ?thesis by (simp add: worker_script_def)
  next
    case (Inr fs)
    then have "fst (worker_script new_MemexFS localeCompare JSON_parse absDir tree inbox) =
               Ready # concat (map (on_message JSON_parse fs) inbox)"
      by (simp add: worker_script_def)
    with Inr on_message_no_ready[of JSON_parse fs inbox] show ?thesis by blast
  qed
qed

theorem ready_before_requests_witness:
  "creation (run [WorkerMessage 1 Ready, WorkerMessage 0 Ready] (createPool 2)) = Created
   \<and> slots (run [WorkerMessage 1 Ready, WorkerMessage 0 Ready] (createPool 2)) = [0, 1]
   \<and> WorkerMessage 0 Ready \<in> set [WorkerMessage 1 Ready, WorkerMessage 0 Ready]
   \<and> WorkerMessage 1 Ready \<in> set [WorkerMessage 1 Ready, WorkerMessage 0 Ready]
   \<and> creation (run [WorkerMessage 1 Ready] (createPool 2)) = Waiting
   \<and> sample_new (worker_docs root_collation [''fixtures'', ''nested''] nested_fixture) = Inr sample_fs
   \<and> fst (worker_script sample_new root_collation sample_parse [''fixtures'', ''nested'']
            nested_fixture [Request 0 ''documentCount'' [], Request 1 ''grep'' [Str ''['']]) =
       [Ready, Reply 0 (Num 2) None, Reply 1 Undefined (Some ''invalid regex: ['')]"
proof -
  let ?events = "[WorkerMessage 1 Ready, WorkerMessage 0 Ready]"
  let ?inbox = "[Request 0 ''documentCount'' [], Request 1 ''grep'' [Str ''['']]"
  note t = ready_before_requests[of 2 ?events
        sample_new root_collation sample_parse "[''fixtures'', ''nested'']" nested_fixture ?inbox]
  have a: "creation (run ?events (createPool 2)) = Created"
    "creation (run [WorkerMessage 1 Ready] (createPool 2)) = Waiting"
    "slots (run ?events (createPool 2)) = [0, 1]"
    by code_simp+
  have b: "fst (worker_script sample_new root_collation sample_parse [''fixtures'', ''nested'']
            nested_fixture ?inbox) =
       [Ready, Reply 0 (Num 2) None, Reply 1 Undefined (Some ''invalid regex: ['')]"
    by code_simp
  have "worker_docs root_collation [''fixtures'', ''nested''] nested_fixture =
      [(''subdir/deep.md'', ''nested inside subdir''), (''top.md'', ''Top level doc'')]"
    by code_simp
  then have c: "sample_new (worker_docs root_collation [''fixtures'', ''nested''] nested_fixture) = Inr sample_fs"
    by (simp add: sample_new_def)
  have "\<forall>w code. WorkerExit w code \<notin> set ?events"
    by simp
  with t a(1) have "\<forall>w\<in>set (slots (run ?events (createPool 2))). WorkerMessage w Ready \<in> set ?events"
    by blast
  then have "WorkerMessage 0 Ready \<in> set ?events" "WorkerMessage 1 Ready \<in> set ?events"
    unfolding a(3) by simp_all
  with a b c show ?thesis by blast
qed

text \<open>
  Claim C5 as stated fails of the workers in the slots: when worker 0 exits after its
  \<^verbatim>\<open>ready\<close> and before that of worker 1, the exit handler puts the new worker 2 into
  its slot, on which \<^verbatim>\<open>createPool\<close> does not listen. The promise of
  \<^verbatim>\<open>createPool\<close> is resolved by the \<^verbatim>\<open>ready\<close> of worker 1, worker 2 has posted
  nothing, and the first request is posted to worker 2.
\<close>

theorem resolved_before_respawned_ready:
  "creation respawned_pool = Created
   \<and> slots respawned_pool = [2, 1]
   \<and> WorkerMessage 2 Ready \<notin> set respawn_events
   \<and> posted (snd (dispatch ''documentCount'' [] respawned_pool)) =
       [(2, Request 0 ''documentCount'' [])]"
  by code_simp

section \<open>Responses of a worker\<close>





section \<open>Results: parsed or raw\<close>



section \<open>Order and cap of the search results\<close>

lemma path_then_line_key: "path_then_line a b \<longleftrightarrow> result_key a \<le> result_key b"
  by (auto simp: path_then_line_def result_key_def)

lemma sorted_wrt_path_then_line:
  "sorted_wrt path_then_line xs \<longleftrightarrow> sorted (map result_key xs)"
  by (simp add: sorted_map path_then_line_key[abs_def])

lemma in_document_matches:
  "r \<in> set (document_matches matches d) \<longleftrightarrow>
     fst d = gr_path r \<and> 0 < gr_line r \<and> gr_line r \<le> length (snd d) \<and>
     snd d ! (gr_line r - 1) = gr_content r \<and> matches (gr_content r)"
proof
  assume "r \<in> set (document_matches matches d)"
  then obtain n l where "(n, l) \<in> set (enumerate 0 (snd d))" "matches l"
      "r = \<lparr>gr_path = fst d, gr_line = Suc n, gr_content = l\<rparr>"
    by (auto simp: document_matches_def)
  then show "fst d = gr_path r \<and> 0 < gr_line r \<and> gr_line r \<le> length (snd d) \<and>
     snd d ! (gr_line r - 1) = gr_content r \<and> matches (gr_content r)"
    by (auto simp: in_set_enumerate_eq)
next
  assume a: "fst d = gr_path r \<and> 0 < gr_line r \<and> gr_line r \<le> length (snd d) \<and>
     snd d ! (gr_line r - 1) = gr_content r \<and> matches (gr_content r)"
  let ?n = "gr_line r - 1"
  have "(?n, gr_content r) \<in> set (enumerate 0 (snd d))"
    using a by (auto simp: in_set_enumerate_eq)
  moreover have "r = \<lparr>gr_path = fst d, gr_line = Suc ?n, gr_content = gr_content r\<rparr>"
    using a by simp
  ultimately show "r \<in> set (document_matches matches d)"
    using a unfolding document_matches_def by force
qed

lemma in_all_matches:
  "r \<in> set (all_matches matches glob_match docs glob) \<longleftrightarrow> is_match matches glob_match docs glob r"
  by (cases glob)
    (force simp: all_matches_def candidates_def is_match_def list_ex_iff in_document_matches)+

lemma sort_key_order_independent:
  assumes "mset xs = mset ys" and "distinct (map f xs)"
  shows "sort_key f xs = sort_key f ys"
proof -
  have sx: "set xs = set ys" using assms(1) by (rule mset_eq_setD)
  have dy: "distinct (map f ys)"
    using assms by (metis distinct_map mset_eq_imp_distinct_iff mset_eq_setD)
  have "map f (sort_key f xs) = map f (sort_key f ys)"
  proof (rule sorted_distinct_set_unique)
    show "distinct (map f (sort_key f xs))"
      using assms(2) by (simp add: distinct_map)
    show "distinct (map f (sort_key f ys))"
      using dy by (simp add: distinct_map)
    show "set (map f (sort_key f xs)) = set (map f (sort_key f ys))"
      using sx by simp
  qed simp_all
  moreover have "inj_on f (set (sort_key f xs) \<union> set (sort_key f ys))"
    using assms(2) sx by (simp add: distinct_map)
  ultimately show ?thesis by (rule map_inj_on)
qed

text \<open>
  Claim C8, on the model of the core's \<^verbatim>\<open>grep\<close>. When \<^verbatim>\<open>grep\<close> returns, its
  results are in ascending order of path and, within a path, of line, and are at most
  100. They are the first 100 entries of the full result list, which is in that order
  and holds exactly the matching lines of the candidate documents, each as often as the
  scan finds it; when that list has more than 100 entries, exactly 100 are returned.
  The order in which the matches were collected does not show: sorting any other
  arrangement of the same matches, no two on the same line of the same path, and capping
  it gives the same results.
\<close>

theorem grep_sorted_and_capped:
  assumes "grep line_matcher glob_match docs pattern glob = Inr results"
  shows "sorted_wrt path_then_line results \<and> length results \<le> 100
     \<and> (\<exists>matches full. line_matcher pattern = Inr matches
          \<and> (\<forall>r. r \<in> set full \<longleftrightarrow> is_match matches glob_match docs glob r)
          \<and> mset full = mset (all_matches matches glob_match docs glob)
          \<and> sorted_wrt path_then_line full
          \<and> results = take 100 full
          \<and> (100 < length full \<longrightarrow> length results = 100)
          \<and> (\<forall>collected. mset collected = mset (all_matches matches glob_match docs glob) \<and>
                 distinct (map result_key collected) \<longrightarrow>
                 take 100 (sort_key result_key collected) = results))"
proof -
  from assms obtain matches where m: "line_matcher pattern = Inr matches"
    by (cases "line_matcher pattern") (auto simp: grep_def)
  define full where "full = sort_key result_key (all_matches matches glob_match docs glob)"
  have r: "results = take 100 full"
    using assms m by (simp add: grep_def full_def MAX_RESULTS_def)
  have s: "sorted_wrt path_then_line full"
    by (simp add: sorted_wrt_path_then_line full_def)
  have "\<forall>r. r \<in> set full \<longleftrightarrow> is_match matches glob_match docs glob r"
    by (simp add: full_def in_all_matches)
  moreover have "mset full = mset (all_matches matches glob_match docs glob)"
    by (simp add: full_def)
  moreover have "sorted_wrt path_then_line results"
    unfolding r using s by (rule sorted_wrt_take)
  moreover have "length results \<le> 100" "100 < length full \<longrightarrow> length results = 100"
    by (simp_all add: r)
  moreover have "\<forall>collected. mset collected = mset (all_matches matches glob_match docs glob) \<and>
                 distinct (map result_key collected) \<longrightarrow>
                 take 100 (sort_key result_key collected) = results"
    unfolding r full_def using sort_key_order_independent[of _ _ result_key] by metis
  ultimately show ?thesis using m r s by blast
qed

theorem grep_sorted_and_capped_witness:
  "length (all_matches (\<lambda>l. l = ''file'' \<or> l = ''a file'') (\<lambda>g p. True) long_store None) = 102
   \<and> map result_key (projr (grep mentions_file (\<lambda>g p. True) long_store ''file'' None)) =
       map (\<lambda>n. (''a.md'', n)) [1..<101]"
proof -
  have v: "grep mentions_file (\<lambda>g p. True) long_store ''file'' None =
      Inr (projr (grep mentions_file (\<lambda>g p. True) long_store ''file'' None))"
    by (simp add: grep_def mentions_file_def)
  have a: "length (all_matches (\<lambda>l. l = ''file'' \<or> l = ''a file'') (\<lambda>g p. True) long_store None) = 102"
    by code_simp
  have b: "map result_key (projr (grep mentions_file (\<lambda>g p. True) long_store ''file'' None)) =
       map (\<lambda>n. (''a.md'', n)) [1..<101]"
    by code_simp
  from grep_sorted_and_capped[OF v] have "length (projr (grep mentions_file (\<lambda>g p. True) long_store ''file'' None)) \<le> 100"
    by blast
  with a b show ?thesis by blast
qed

section \<open>The top-level loader and the recursive loader\<close>

lemma collect_empty: "\<not> has_md es \<Longrightarrow> collectMdFiles rootDir currentDir es = []"
  by (induction rootDir currentDir es rule: collectMdFiles.induct) (auto split: fsnode.splits)

lemma collect_top_level:
  "markdown_at_top_level tree \<Longrightarrow> collectMdFiles absDir absDir tree = md_entries tree"
proof (induction tree)
  case Nil
  then show ?case by simp
next
  case (Cons e es)
  obtain n nd where e: "e = (n, nd)" by (cases e)
  from Cons.prems have rest: "markdown_at_top_level es"
    by (simp add: markdown_at_top_level_def)
  show ?case
  proof (cases nd)
    case (File c)
    have "relative absDir (join absDir n) = n"
      using relative_under_root[of absDir "[n]"] by (simp add: join_def)
    with File e Cons.IH[OF rest] show ?thesis by simp
  next
    case (Dir sub)
    with Cons.prems e have "\<not> has_md sub"
      by (simp add: markdown_at_top_level_def)
    then have "collectMdFiles absDir (join absDir n) sub = []"
      by (rule collect_empty)
    with Dir e Cons.IH[OF rest] show ?thesis by simp
  qed
qed

lemma read_md_name:
  assumes "markdown_at_top_level tree" and "f \<in> set (md_names tree)"
  shows "readFileSync tree f = Inr (content_of tree f)"
proof -
  from assms(2) have f: "f \<in> fst ` set tree" "endsWith f ''.md''"
    by (auto simp: md_names_def)
  then obtain nd where m: "map_of tree f = Some nd"
    by (metis domD dom_map_of_conv_image_fst)
  then have "(f, nd) \<in> set tree" by (rule map_of_SomeD)
  with assms(1) f(2) obtain c where "nd = File c"
    by (cases nd) (auto simp: markdown_at_top_level_def list_all_iff)
  with m show ?thesis by (simp add: readFileSync_def content_of_def)
qed

lemma map_throwing_total:
  "(\<And>x. x \<in> set xs \<Longrightarrow> f x = Inr (g x)) \<Longrightarrow> map_throwing f xs = Inr (map g xs)"
  by (induction xs) auto

lemma md_entries_names:
  assumes "distinct (map fst tree)" and "markdown_at_top_level tree"
  shows "md_entries tree = map (\<lambda>f. (f, content_of tree f)) (md_names tree)"
  using assms
proof (induction tree rule: md_entries.induct)
  case 1
  then show ?case by (simp add: md_names_def)
next
  case (2 n c es)
  have "map (\<lambda>f. (f, content_of ((n, File c) # es) f)) (md_names es) =
        map (\<lambda>f. (f, content_of es f)) (md_names es)"
    using "2.prems" by (auto simp: md_names_def content_of_def readFileSync_def)
  moreover have "markdown_at_top_level es"
    using "2.prems" by (simp add: markdown_at_top_level_def)
  ultimately show ?case
    using 2 by (auto simp: md_names_def content_of_def readFileSync_def)
next
  case (3 n sub es)
  have "map (\<lambda>f. (f, content_of ((n, Dir sub) # es) f)) (md_names es) =
        map (\<lambda>f. (f, content_of es f)) (md_names es)"
    using "3.prems" by (auto simp: md_names_def content_of_def readFileSync_def)
  moreover have "markdown_at_top_level es" "\<not> endsWith n ''.md''"
    using "3.prems" by (simp_all add: markdown_at_top_level_def)
  ultimately show ?case
    using 3 by (auto simp: md_names_def)
qed

lemma insert_by_map:
  "(\<And>y. y \<in> set ys \<Longrightarrow> (c1 (g x) (g y) \<le> 0) = (c2 x y \<le> 0)) \<Longrightarrow>
   insert_by c1 (g x) (map g ys) = map g (insert_by c2 x ys)"
  by (induction ys) auto

lemma array_sort_map:
  "(\<And>x y. x \<in> set xs \<Longrightarrow> y \<in> set xs \<Longrightarrow> (c1 (g x) (g y) \<le> 0) = (c2 x y \<le> 0)) \<Longrightarrow>
   array_sort c1 (map g xs) = map g (array_sort c2 xs)"
proof (induction xs)
  case Nil
  then show ?case by (simp add: array_sort_def)
next
  case (Cons x xs)
  have ih: "array_sort c1 (map g xs) = map g (array_sort c2 xs)"
    using Cons by simp
  have "insert_by c1 (g x) (map g (array_sort c2 xs)) = map g (insert_by c2 x (array_sort c2 xs))"
    by (rule insert_by_map) (use Cons.prems in \<open>simp add: set_array_sort\<close>)
  with ih show ?case by (simp add: array_sort_Cons)
qed

text \<open>
  Claim C9, as the code has it. When the names in \<^verbatim>\<open>absDir\<close> are distinct and every
  markdown file of the tree is an entry of \<^verbatim>\<open>absDir\<close> itself (no directory there has
  a name ending in \<^verbatim>\<open>.md\<close> or holds a markdown file), the top-level loader returns,
  and its list has the same pairs as the list of the recursive loader, each as often.
  The two lists, and so what the two loaders hand to the constructor, are equal when the
  collation orders these file names as their code units do.
\<close>

theorem loaders_agree_at_top_level:
  assumes "distinct (map fst tree)" and "markdown_at_top_level tree"
  shows "(\<exists>docs. toplevel_docs tree = Inr docs \<and>
            mset docs = mset (loader_docs localeCompare absDir tree))
     \<and> ((\<forall>a\<in>set (md_names tree). \<forall>b\<in>set (md_names tree). (localeCompare a b \<le> 0) = (a \<le> b))
        \<longrightarrow> toplevel_docs tree = Inr (loader_docs localeCompare absDir tree)
          \<and> loadFromDirectory_toplevel new_MemexFS tree =
              Inr (loadFromDirectory new_MemexFS localeCompare absDir tree))"
proof -
  let ?g = "\<lambda>f. (f, content_of tree f)"
  let ?sorted = "array_sort code_unit_compare (md_names tree)"
  have reads: "\<And>f. f \<in> set ?sorted \<Longrightarrow>
      (case readFileSync tree f of Inl e \<Rightarrow> Inl e | Inr content \<Rightarrow> Inr (f, content)) = Inr (?g f)"
    using read_md_name[OF assms(2)] by (simp add: set_array_sort)
  have old: "toplevel_docs tree = Inr (map ?g ?sorted)"
    unfolding toplevel_docs_def Let_def md_names_def[symmetric]
    by (rule map_throwing_total) (rule reads)
  have new: "loader_docs localeCompare absDir tree =
      array_sort (\<lambda>a b. localeCompare (fst a) (fst b)) (map ?g (md_names tree))"
    by (simp add: loader_docs_def collect_top_level[OF assms(2)] md_entries_names[OF assms])
  have "mset (map ?g ?sorted) = mset (loader_docs localeCompare absDir tree)"
    by (simp add: new mset_array_sort)
  with old have first: "\<exists>docs. toplevel_docs tree = Inr docs \<and>
            mset docs = mset (loader_docs localeCompare absDir tree)"
    by blast
  have second: "toplevel_docs tree = Inr (loader_docs localeCompare absDir tree)
          \<and> loadFromDirectory_toplevel new_MemexFS tree =
              Inr (loadFromDirectory new_MemexFS localeCompare absDir tree)"
    if agree: "\<forall>a\<in>set (md_names tree). \<forall>b\<in>set (md_names tree). (localeCompare a b \<le> 0) = (a \<le> b)"
  proof -
    have "array_sort (\<lambda>a b. localeCompare (fst a) (fst b)) (map ?g (md_names tree)) = map ?g ?sorted"
      by (rule array_sort_map) (use agree in \<open>simp add: code_unit_compare_le\<close>)
    with old new have "toplevel_docs tree = Inr (loader_docs localeCompare absDir tree)"
      by simp
    then show ?thesis
      by (simp add: loadFromDirectory_toplevel_def loadFromDirectory_def)
  qed
  from first second show ?thesis by blast
qed

theorem loaders_agree_at_top_level_witness:
  "toplevel_docs flat_fixture = Inr (loader_docs code_unit_compare [''fixtures''] flat_fixture)
   \<and> loader_docs code_unit_compare [''fixtures''] flat_fixture =
       [(''curl.md'', ''Transfers data''), (''tar.md'', ''Archiving utility'')]"
proof -
  have d: "distinct (map fst flat_fixture)" by (simp add: flat_fixture_def)
  have t: "markdown_at_top_level flat_fixture" by code_simp
  have v: "loader_docs code_unit_compare [''fixtures''] flat_fixture =
       [(''curl.md'', ''Transfers data''), (''tar.md'', ''Archiving utility'')]" by code_simp
  show ?thesis
    using loaders_agree_at_top_level[OF d t, of code_unit_compare "[''fixtures'']"
        "Inr :: (string \<times> string) list \<Rightarrow> unit + (string \<times> string) list"]
    by (simp add: code_unit_compare_le v)
qed

text \<open>
  Claim C9 as stated fails. On a directory with the files \<^verbatim>\<open>B.md\<close> and
  \<^verbatim>\<open>a.md\<close> the top-level loader passes \<^verbatim>\<open>B.md\<close> first, by the default sort,
  and the recursive loader passes \<^verbatim>\<open>a.md\<close> first, by the collation. On the fixture
  \<^verbatim>\<open>fixtures/nested\<close> the top-level loader passes \<^verbatim>\<open>top.md\<close> alone and the
  recursive one passes \<^verbatim>\<open>subdir/deep.md\<close> too.
\<close>

theorem loaders_differ:
  "toplevel_docs mixed_case_dir = Inr [(''B.md'', ''second''), (''a.md'', ''first'')]
   \<and> loader_docs root_collation [''docs''] mixed_case_dir =
       [(''a.md'', ''first''), (''B.md'', ''second'')]
   \<and> toplevel_docs nested_fixture = Inr [(''top.md'', ''Top level doc'')]
   \<and> loader_docs root_collation [''fixtures'', ''nested''] nested_fixture =
       [(''subdir/deep.md'', ''nested inside subdir''), (''top.md'', ''Top level doc'')]"
  by code_simp

section \<open>A terminated pool\<close>

lemma dispatch_terminated:
  "terminated p \<Longrightarrow> dispatch meth arguments p = (Promise_rejected ''pool is terminated'', p)"
  by (simp add: dispatch_def)

lemma step_terminated:
  assumes "terminated p"
  shows "terminated (step e p)" "posted (step e p) = posted p"
    "spawned (step e p) = spawned p" "slots (step e p) = slots p"
  using assms
  by (cases e; simp add: dispatch_terminated on_worker_exit_def terminate_def)+

lemma run_terminated:
  "terminated p \<Longrightarrow>
   terminated (run events p) \<and> posted (run events p) = posted p \<and>
   spawned (run events p) = spawned p \<and> slots (run events p) = slots p"
  unfolding run_def
  by (induction events arbitrary: p) (simp_all add: step_terminated)

text \<open>
  Claim C10. After \<^verbatim>\<open>terminate\<close>, whatever happens next (calls, messages, errors and
  exits of workers), the pool stays terminated: each of \<^verbatim>\<open>grep\<close>, \<^verbatim>\<open>read\<close>,
  \<^verbatim>\<open>ls\<close>, \<^verbatim>\<open>toolDefinitions\<close> and \<^verbatim>\<open>documentCount\<close> returns a promise
  rejected with the message \<^verbatim>\<open>pool is terminated\<close> and leaves the pool as it is, no
  message has been posted to a worker since \<^verbatim>\<open>terminate\<close>, and no worker has been
  spawned or put into a slot.
\<close>

theorem terminated_pool_rejects:
  "terminated (run events (terminate p))
   \<and> pool_grep pattern glob (run events (terminate p)) =
       (Promise_rejected ''pool is terminated'', run events (terminate p))
   \<and> pool_read path offset limit (run events (terminate p)) =
       (Promise_rejected ''pool is terminated'', run events (terminate p))
   \<and> pool_ls path (run events (terminate p)) =
       (Promise_rejected ''pool is terminated'', run events (terminate p))
   \<and> pool_toolDefinitions (run events (terminate p)) =
       (Promise_rejected ''pool is terminated'', run events (terminate p))
   \<and> pool_documentCount (run events (terminate p)) =
       (Promise_rejected ''pool is terminated'', run events (terminate p))
   \<and> posted (run events (terminate p)) = posted p
   \<and> spawned (run events (terminate p)) = spawned p
   \<and> slots (run events (terminate p)) = slots p"
proof -
  have t: "terminated (terminate p)" by (simp add: terminate_def)
  note r = run_terminated[OF t, of events]
  from r show ?thesis
    by (simp add: pool_grep_def pool_read_def pool_ls_def pool_toolDefinitions_def
        pool_documentCount_def dispatch_terminated terminate_def)
qed

theorem terminated_pool_rejects_witness:
  "fst (pool_grep (Str ''test'') Undefined
          (run [Call ''ls'' [Str ''''], WorkerExit 0 1, WorkerExit 1 1] (terminate busy_pool))) =
     Promise_rejected ''pool is terminated''
   \<and> slots (run [Call ''ls'' [Str ''''], WorkerExit 0 1, WorkerExit 1 1] (terminate busy_pool)) = [0, 1]
   \<and> length (posted (run [Call ''ls'' [Str ''''], WorkerExit 0 1, WorkerExit 1 1] (terminate busy_pool))) = 3"
proof -
  have "posted busy_pool = [(0, Request 0 ''grep'' [Str ''archive'']), (1, Request 1 ''ls'' [Str '''']),
      (0, Request 2 ''documentCount'' [])]"
    by code_simp
  then show ?thesis
    using terminated_pool_rejects[of "[Call ''ls'' [Str ''''], WorkerExit 0 1, WorkerExit 1 1]"
        busy_pool "Str ''test''" Undefined]
    by (simp add: busy_pool_state)
qed

end
